theory Spec2Isabelle
  imports Main
begin

section \<open>JavaScript values used by the generator\<close>

text \<open>
  The generator \<^verbatim>\<open>scripts/generate_timeblocking.mjs\<close> works on strings and on small
  integral numbers. A string is modelled as a list of 8-bit characters, read as the code
  units U+0000 .. U+00FF; a number as an \<^typ>\<open>int\<close>. Where the source can see
  \<^verbatim>\<open>undefined\<close> or \<^verbatim>\<open>NaN\<close> (a missing part of a split, a part that is not a
  number, an invalid \<^verbatim>\<open>Date\<close>) the value is a \<open>jsval\<close>.
\<close>

datatype jsval = Undefined | NaN | Num int

text \<open>White space of \<^verbatim>\<open>String.prototype.trim\<close> and of the pattern \<^verbatim>\<open>\s\<close>, below U+0100:
  TAB, LF, VT, FF, CR, SPACE and NO-BREAK SPACE.\<close>

definition isSpace :: "char \<Rightarrow> bool" where
  "isSpace c = (c \<in> set [CHR 0x09, CHR 0x0A, CHR 0x0B, CHR 0x0C, CHR 0x0D, CHR '' '', CHR 0xA0])"

text \<open>The pattern \<^verbatim>\<open>\d\<close>.\<close>

definition isDigit :: "char \<Rightarrow> bool" where
  "isDigit c = (c \<in> set ''0123456789'')"

definition trim :: "string \<Rightarrow> string" where
  "trim s = rev (dropWhile isSpace (rev (dropWhile isSpace s)))"

text \<open>\<^verbatim>\<open>s.split(c)\<close> for a separator of one character.\<close>

fun splitOn :: "char \<Rightarrow> string \<Rightarrow> string list" where
  "splitOn c [] = [[]]"
| "splitOn c (x # xs) =
     (if x = c then [] # splitOn c xs
      else (case splitOn c xs of [] \<Rightarrow> [[x]] | p # ps \<Rightarrow> (x # p) # ps))"

definition digitVal :: "char \<Rightarrow> nat" where
  "digitVal c = of_char c - 48"

definition decimal :: "string \<Rightarrow> nat" where
  "decimal s = foldl (\<lambda>acc c. 10 * acc + digitVal c) 0 s"

text \<open>
  \<^verbatim>\<open>Number(s)\<close> on a string: white space around the text is ignored, the empty text is
  0, a run of decimal digits is its value. Every other text is modelled as \<^verbatim>\<open>NaN\<close>;
  the source applies \<^verbatim>\<open>Number\<close> to the parts of a day \<^verbatim>\<open>YYYY-MM-DD\<close>, of a time
  \<^verbatim>\<open>HH:MM\<close> and to the digit groups of the time pattern only.
\<close>

definition jsNumber :: "string \<Rightarrow> jsval" where
  "jsNumber s = (let t = trim s in
     if t = [] then Num 0
     else if list_all isDigit t then Num (int (decimal t))
     else NaN)"

fun showNat :: "nat \<Rightarrow> string" where
  "showNat n = (if n < 10 then [''0123456789'' ! n]
                else showNat (n div 10) @ [''0123456789'' ! (n mod 10)])"

declare showNat.simps [simp del]

text \<open>\<^verbatim>\<open>String(n)\<close>, also the conversion inside a template literal.\<close>

fun jsString :: "jsval \<Rightarrow> string" where
  "jsString Undefined = ''undefined''"
| "jsString NaN = ''NaN''"
| "jsString (Num n) = (if n < 0 then CHR ''-'' # showNat (nat (- n)) else showNat (nat n))"

definition pad2 :: "jsval \<Rightarrow> string" where
  "pad2 n = (let s = jsString n in replicate (2 - length s) CHR ''0'' @ s)"

text \<open>Element \<open>i\<close> of an array destructuring: \<^verbatim>\<open>undefined\<close> past the end.\<close>

definition part :: "jsval list \<Rightarrow> nat \<Rightarrow> jsval" where
  "part xs i = (if i < length xs then xs ! i else Undefined)"

text \<open>\<^verbatim>\<open>toUpperCase\<close> on the letters A to Z, the only ones the time pattern lets through.\<close>

definition toUpperChar :: "char \<Rightarrow> char" where
  "toUpperChar c =
     (case map_of (zip ''abcdefghijklmnopqrstuvwxyz'' ''ABCDEFGHIJKLMNOPQRSTUVWXYZ'') c of
        None \<Rightarrow> c | Some u \<Rightarrow> u)"

definition toUpperCase :: "string \<Rightarrow> string" where
  "toUpperCase s = map toUpperChar s"

section \<open>Calendar days\<close>

text \<open>
  A \<^verbatim>\<open>Date\<close> built by \<^verbatim>\<open>Date.UTC(y, m, d)\<close> is a whole number of days since
  1970-01-01 (its time within the day is 0), or invalid: \<open>None\<close>. The functions are
  those of the ECMAScript specification, on day numbers.
\<close>

definition DayFromYear :: "int \<Rightarrow> int" where
  "DayFromYear y =
     365 * (y - 1970) + (y - 1969) div 4 - (y - 1901) div 100 + (y - 1601) div 400"

definition InLeapYear :: "int \<Rightarrow> bool" where
  "InLeapYear y = (y mod 4 = 0 \<and> (y mod 100 \<noteq> 0 \<or> y mod 400 = 0))"

text \<open>The year of a day: the largest \<open>y\<close> with \<open>DayFromYear y \<le> t\<close>, found from an
  estimate by the mean length of a year.\<close>

definition YearFromDay :: "int \<Rightarrow> int" where
  "YearFromDay t =
     (let y = 1970 + (400 * t) div 146097 in
      if DayFromYear (y + 1) \<le> t then y + 1
      else if t < DayFromYear y then y - 1
      else y)"

text \<open>First day, within its year, of month \<open>m\<close> (0 is January).\<close>

definition monthStart :: "bool \<Rightarrow> int \<Rightarrow> int" where
  "monthStart leap m =
     (let l = (if leap then 1 else 0) in
      if m \<le> 0 then 0 else if m = 1 then 31 else if m = 2 then 59 + l
      else if m = 3 then 90 + l else if m = 4 then 120 + l else if m = 5 then 151 + l
      else if m = 6 then 181 + l else if m = 7 then 212 + l else if m = 8 then 243 + l
      else if m = 9 then 273 + l else if m = 10 then 304 + l else 334 + l)"

definition DayWithinYear :: "int \<Rightarrow> int" where
  "DayWithinYear t = t - DayFromYear (YearFromDay t)"

definition MonthFromDay :: "int \<Rightarrow> int" where
  "MonthFromDay t =
     (let d = DayWithinYear t; l = (if InLeapYear (YearFromDay t) then 1 else 0) in
      if d < 31 then 0 else if d < 59 + l then 1 else if d < 90 + l then 2
      else if d < 120 + l then 3 else if d < 151 + l then 4 else if d < 181 + l then 5
      else if d < 212 + l then 6 else if d < 243 + l then 7 else if d < 273 + l then 8
      else if d < 304 + l then 9 else if d < 334 + l then 10 else 11)"

definition DateFromDay :: "int \<Rightarrow> int" where
  "DateFromDay t =
     DayWithinYear t - monthStart (InLeapYear (YearFromDay t)) (MonthFromDay t) + 1"

text \<open>\<^verbatim>\<open>getUTCDay\<close>: 1970-01-01 was a Thursday.\<close>

definition WeekDay :: "int \<Rightarrow> int" where
  "WeekDay t = (t + 4) mod 7"

definition MakeDay :: "int \<Rightarrow> int \<Rightarrow> int \<Rightarrow> int" where
  "MakeDay year month date =
     (let ym = year + month div 12; mn = month mod 12 in
      DayFromYear ym + monthStart (InLeapYear ym) mn + date - 1)"

text \<open>A time value is kept when it lies within 100,000,000 days of the epoch.\<close>

definition TimeClip :: "int \<Rightarrow> int option" where
  "TimeClip t = (if \<bar>t\<bar> > 100000000 then None else Some t)"

fun DateUTC :: "jsval \<Rightarrow> jsval \<Rightarrow> jsval \<Rightarrow> int option" where
  "DateUTC (Num y) (Num m) (Num d) =
     TimeClip (MakeDay (if 0 \<le> y \<and> y \<le> 99 then 1900 + y else y) m d)"
| "DateUTC _ _ _ = None"

definition setUTCDate :: "int \<Rightarrow> int \<Rightarrow> int option" where
  "setUTCDate t date = TimeClip (MakeDay (YearFromDay t) (MonthFromDay t) date)"

text \<open>\<^verbatim>\<open>m - 1\<close> on a value that may be \<^verbatim>\<open>undefined\<close> or \<^verbatim>\<open>NaN\<close>.\<close>

fun jsMinus1 :: "jsval \<Rightarrow> jsval" where
  "jsMinus1 (Num m) = Num (m - 1)"
| "jsMinus1 _ = NaN"

definition ymdToDateParts :: "string \<Rightarrow> jsval \<times> jsval \<times> jsval" where
  "ymdToDateParts ymd =
     (let ps = map jsNumber (splitOn CHR ''-'' ymd) in (part ps 0, part ps 1, part ps 2))"

definition addDaysYmd :: "string \<Rightarrow> int \<Rightarrow> string" where
  "addDaysYmd ymd add =
     (case ymdToDateParts ymd of (y, m, d) \<Rightarrow>
        (case DateUTC y (jsMinus1 m) d of
           None \<Rightarrow> ''NaN-NaN-NaN''
         | Some dt \<Rightarrow>
             (case setUTCDate dt (DateFromDay dt + add) of
                None \<Rightarrow> ''NaN-NaN-NaN''
              | Some dt' \<Rightarrow>
                  jsString (Num (YearFromDay dt')) @ ''-'' @ pad2 (Num (MonthFromDay dt' + 1))
                    @ ''-'' @ pad2 (Num (DateFromDay dt')))))"

definition weekdayIndexUTC :: "string \<Rightarrow> jsval" where
  "weekdayIndexUTC ymd =
     (case ymdToDateParts ymd of (y, m, d) \<Rightarrow>
        (case DateUTC y (jsMinus1 m) d of None \<Rightarrow> NaN | Some dt \<Rightarrow> Num (WeekDay dt)))"

section \<open>Times of day\<close>

datatype error = BadTime string | BadRange string | TypeError

record hm =
  hh :: int
  mm :: int

record timeRange =
  start :: hm
  endT :: hm

text \<open>
  The pattern \<^verbatim>\<open>/^(\d{1,2}):(\d{2})\s*(AM|PM)$/i\<close> on a whole string; the result is
  the three groups. One or two digits must be followed by the colon, so the first group
  is the longest run of digits at the front, of length 1 or 2.
\<close>

definition matchTime12h :: "string \<Rightarrow> (string \<times> string \<times> string) option" where
  "matchTime12h t =
     (let m1 = takeWhile isDigit t in
      if 1 \<le> length m1 \<and> length m1 \<le> 2 then
        (case dropWhile isDigit t of
           c # d1 # d2 # r \<Rightarrow>
             if c = CHR '':'' \<and> isDigit d1 \<and> isDigit d2 then
               (case dropWhile isSpace r of
                  [a, b] \<Rightarrow>
                    if toUpperCase [a, b] = ''AM'' \<or> toUpperCase [a, b] = ''PM''
                    then Some (m1, [d1, d2], [a, b]) else None
                | _ \<Rightarrow> None)
             else None
         | _ \<Rightarrow> None)
      else None)"

definition parseTime12h :: "string \<Rightarrow> error + hm" where
  "parseTime12h s =
     (case matchTime12h (trim s) of
        None \<Rightarrow> Inl (BadTime s)
      | Some (m1, m2, m3) \<Rightarrow>
          (let hh = int (decimal m1); mm = int (decimal m2); ap = toUpperCase m3 in
           Inr \<lparr>hh = (if ap = ''AM'' then (if hh = 12 then 0 else hh)
                       else (if hh \<noteq> 12 then hh + 12 else hh)),
                 mm = mm\<rparr>))"

definition parseRange :: "string \<Rightarrow> error + timeRange" where
  "parseRange rangeStr =
     (let parts = map trim (splitOn CHR ''-'' rangeStr) in
      if length parts \<noteq> 2 then Inl (BadRange rangeStr)
      else (case parseTime12h (parts ! 0) of
              Inl e \<Rightarrow> Inl e
            | Inr a \<Rightarrow>
                (case parseTime12h (parts ! 1) of
                   Inl e \<Rightarrow> Inl e
                 | Inr b \<Rightarrow> Inr \<lparr>start = a, endT = b\<rparr>)))"

text \<open>\<^verbatim>\<open>hmToMinutes\<close> is called on the two constants below only; a part that is not a
  number counts 0 here.\<close>

definition hmToMinutes :: "string \<Rightarrow> int" where
  "hmToMinutes s =
     (let ps = map jsNumber (splitOn CHR '':'' s) in
      (case part ps 0 of Num h \<Rightarrow> h | _ \<Rightarrow> 0) * 60 + (case part ps 1 of Num m \<Rightarrow> m | _ \<Rightarrow> 0))"

text \<open>\<^verbatim>\<open>min % 60\<close> has the sign of its left operand.\<close>

definition minutesToHm :: "int \<Rightarrow> string" where
  "minutesToHm mins =
     (let h = mins div 60; m = (if 0 \<le> mins then mins mod 60 else - ((- mins) mod 60)) in
      pad2 (Num h) @ '':'' @ pad2 (Num m))"

definition clamp :: "int \<Rightarrow> int \<Rightarrow> int \<Rightarrow> int" where
  "clamp n a b = max a (min b n)"

section \<open>Configuration\<close>

definition TZID :: string where
  "TZID = ''Asia/Dubai''"

text \<open>\<^verbatim>\<open>DJ\<close> and \<^verbatim>\<open>DAYS\<close> with the environment variables of the same names unset.\<close>

definition DJ :: string where
  "DJ = ''javi''"

definition DAYS :: nat where
  "DAYS = 7"

definition BREAKFAST_END :: string where
  "BREAKFAST_END = ''08:30''"

definition DEFAULT_END :: string where
  "DEFAULT_END = ''13:00''"

definition BREAK_MIN :: int where
  "BREAK_MIN = 15"

record block =
  key :: string
  title :: string
  minutes :: int

definition BLOCKS :: "block list" where
  "BLOCKS =
     [\<lparr>key = ''music'', title = ''M'' @ [CHR 0xFA] @ ''sica (escuchar/descargar)'', minutes = 30\<rparr>,
      \<lparr>key = ''nibango'', title = ''Nibango (deep work)'', minutes = 90\<rparr>,
      \<lparr>key = ''youtube'', title = ''YouTube (v'' @ [CHR 0xED] @ ''deo viernes)'', minutes = 60\<rparr>]"

section \<open>Intervals of minutes\<close>

record interval =
  startMin :: int
  endMin :: int

text \<open>The loop of \<^verbatim>\<open>mergeIntervals\<close>: \<open>merged\<close> is the array built so far, its last
  element is extended in place or a copy of \<open>i\<close> is pushed.\<close>

fun mergeLoop :: "interval list \<Rightarrow> interval list \<Rightarrow> interval list" where
  "mergeLoop merged [] = merged"
| "mergeLoop merged (i # rest) =
     (if merged = [] \<or> startMin i > endMin (last merged)
      then mergeLoop (merged @ [i]) rest
      else mergeLoop (butlast merged @
             [(last merged)\<lparr>endMin := max (endMin (last merged)) (endMin i)\<rparr>]) rest)"

text \<open>\<^verbatim>\<open>Array.prototype.sort\<close> is stable, as is \<^const>\<open>sort_key\<close>.\<close>

definition mergeIntervals :: "interval list \<Rightarrow> interval list" where
  "mergeIntervals intervals =
     mergeLoop [] (sort_key startMin (filter (\<lambda>i. endMin i > startMin i) intervals))"

text \<open>The inner loop of \<^verbatim>\<open>subtractIntervals\<close> over \<open>busy\<close>, for one available interval
  \<open>a\<close>: it returns the cursor and the output array.\<close>

fun subtractBusy :: "interval \<Rightarrow> interval list \<Rightarrow> int \<Rightarrow> interval list \<Rightarrow> int \<times> interval list" where
  "subtractBusy a [] cursor out = (cursor, out)"
| "subtractBusy a (b # bs) cursor out =
     (if endMin b \<le> cursor then subtractBusy a bs cursor out
      else if startMin b \<ge> endMin a then (cursor, out)
      else
        (let out' = (if startMin b > cursor
                     then out @ [\<lparr>startMin = cursor, endMin = min (startMin b) (endMin a)\<rparr>]
                     else out);
             cursor' = max cursor (endMin b)
         in if cursor' \<ge> endMin a then (cursor', out') else subtractBusy a bs cursor' out'))"

fun subtractLoop :: "interval list \<Rightarrow> interval list \<Rightarrow> interval list \<Rightarrow> interval list" where
  "subtractLoop [] busy out = out"
| "subtractLoop (a # as) busy out =
     (case subtractBusy a busy (startMin a) out of
        (cursor, out') \<Rightarrow>
          subtractLoop as busy
            (if cursor < endMin a then out' @ [\<lparr>startMin = cursor, endMin = endMin a\<rparr>]
             else out'))"

definition subtractIntervals :: "interval list \<Rightarrow> interval list \<Rightarrow> interval list" where
  "subtractIntervals available busy = subtractLoop available busy []"

text \<open>The loop of \<^verbatim>\<open>chooseMorningEnd\<close>: \<open>None\<close> is \<^verbatim>\<open>earliest == null\<close>.\<close>

fun earliestBusy :: "interval list \<Rightarrow> int option" where
  "earliestBusy [] = None"
| "earliestBusy (b # bs) =
     (if endMin b \<le> hmToMinutes BREAKFAST_END then earliestBusy bs else Some (startMin b))"

definition chooseMorningEnd :: "interval list \<Rightarrow> int \<Rightarrow> int" where
  "chooseMorningEnd busyMerged defaultEndMin =
     (case earliestBusy busyMerged of
        None \<Rightarrow> defaultEndMin
      | Some earliest \<Rightarrow> clamp earliest 0 defaultEndMin)"

section \<open>Packing the blocks\<close>

text \<open>A placed block: the minutes \<open>[startMin, endMin)\<close> and the block placed there.\<close>

record placement = interval +
  blk :: block

text \<open>The loop over \<open>idx\<close>: the first index at or after \<open>idx\<close> whose interval is long
  enough.\<close>

function firstFit :: "int \<Rightarrow> interval list \<Rightarrow> nat \<Rightarrow> nat option" where
  "firstFit needed remainingFree idx =
     (if idx < length remainingFree then
        (let it = remainingFree ! idx; len = endMin it - startMin it in
         if len < needed then firstFit needed remainingFree (idx + 1) else Some idx)
      else None)"
  by pat_completeness auto
termination
  by (relation "measure (\<lambda>(needed, remainingFree, idx). length remainingFree - idx)") auto

declare firstFit.simps [simp del]

text \<open>The loop over \<^verbatim>\<open>BLOCKS\<close>. The source pushes the calendar event of each placement;
  here the placement is pushed and \<open>eventOf\<close> below renders it.\<close>

fun placeBlocks :: "block list \<Rightarrow> interval list \<Rightarrow> placement list \<Rightarrow> placement list" where
  "placeBlocks [] remainingFree events = events"
| "placeBlocks (b # bs) remainingFree events =
     (case firstFit (minutes b) remainingFree 0 of
        None \<Rightarrow> placeBlocks bs remainingFree events
      | Some idx \<Rightarrow>
          (let it = remainingFree ! idx;
               startMin' = startMin it;
               endMin' = startMin' + minutes b;
               newStart = endMin' + BREAK_MIN;
               newIntervals = (if newStart < endMin it
                               then [\<lparr>startMin = newStart, endMin = endMin it\<rparr>] else [])
           in placeBlocks bs
                (take idx remainingFree @ newIntervals @ drop (idx + 1) remainingFree)
                (events @ [\<lparr>startMin = startMin', endMin = endMin', blk = b\<rparr>])))"

section \<open>Calendar events and the output text\<close>

record event =
  uid :: string
  summary :: string
  dtstart :: string
  dtend :: string

definition dtLocalFloating :: "string \<Rightarrow> string \<Rightarrow> string" where
  "dtLocalFloating ymd s =
     (case ymdToDateParts ymd of (y, m, d) \<Rightarrow>
        (let ps = map jsNumber (splitOn CHR '':'' s) in
         jsString y @ pad2 m @ pad2 d @ ''T'' @ pad2 (part ps 0) @ pad2 (part ps 1) @ ''00''))"

text \<open>\<^verbatim>\<open>s.replace(c, "")\<close>: the first occurrence goes.\<close>

fun removeFirst :: "char \<Rightarrow> string \<Rightarrow> string" where
  "removeFirst c [] = []"
| "removeFirst c (x # xs) = (if x = c then xs else x # removeFirst c xs)"

definition uidForEvent :: "string \<Rightarrow> string \<Rightarrow> string \<Rightarrow> string" where
  "uidForEvent k ymd startHm =
     ''tb-'' @ DJ @ ''-'' @ k @ ''-'' @ ymd @ ''-'' @ removeFirst CHR '':'' startHm @ ''@javibeat''"

definition eventOf :: "string \<Rightarrow> placement \<Rightarrow> event" where
  "eventOf ymd p =
     (let startHm = minutesToHm (startMin p); endHm = minutesToHm (endMin p) in
      \<lparr>uid = uidForEvent (key (blk p)) ymd startHm,
       summary = title (blk p),
       dtstart = dtLocalFloating ymd startHm,
       dtend = dtLocalFloating ymd endHm\<rparr>)"

definition scheduleBlocks :: "interval list \<Rightarrow> string \<Rightarrow> event list" where
  "scheduleBlocks freeIntervals ymd = map (eventOf ymd) (placeBlocks BLOCKS freeIntervals [])"

text \<open>
  \<^verbatim>\<open>new Date().toISOString()\<close> reads the clock: its result \<open>nowIso\<close> is an input of the
  model. The two replacements drop every \<^verbatim>\<open>-\<close> and \<^verbatim>\<open>:\<close> and turn a final
  \<^verbatim>\<open>.ddd\<close>\<^verbatim>\<open>Z\<close> into \<^verbatim>\<open>Z\<close>.
\<close>

definition dropMillis :: "string \<Rightarrow> string" where
  "dropMillis s =
     (case rev s of
        z # c # b # a # p # r \<Rightarrow>
          if z = CHR ''Z'' \<and> isDigit c \<and> isDigit b \<and> isDigit a \<and> p = CHR ''.''
          then rev r @ ''Z'' else s
      | _ \<Rightarrow> s)"

definition dtstampOf :: "string \<Rightarrow> string" where
  "dtstampOf nowIso = dropMillis (filter (\<lambda>c. c \<noteq> CHR ''-'' \<and> c \<noteq> CHR '':'') nowIso)"

definition eventLines :: "string \<Rightarrow> event \<Rightarrow> string list" where
  "eventLines dtstamp ev =
     [''BEGIN:VEVENT'',
      ''UID:'' @ uid ev,
      ''DTSTAMP:'' @ dtstamp,
      ''SUMMARY:'' @ summary ev,
      ''DTSTART;TZID='' @ TZID @ '':'' @ dtstart ev,
      ''DTEND;TZID='' @ TZID @ '':'' @ dtend ev,
      ''STATUS:CONFIRMED'',
      ''TRANSP:OPAQUE'',
      ''END:VEVENT'']"

definition icsLines :: "event list \<Rightarrow> string \<Rightarrow> string list" where
  "icsLines events nowIso =
     [''BEGIN:VCALENDAR'',
      ''VERSION:2.0'',
      ''PRODID:-//JaviBeat//Timeblocking//EN'',
      ''CALSCALE:GREGORIAN'',
      ''METHOD:PUBLISH'',
      ''X-WR-CALNAME:Timeblocking'',
      ''X-WR-TIMEZONE:'' @ TZID]
     @ concat (map (eventLines (dtstampOf nowIso)) events)
     @ [''END:VCALENDAR'']"

definition CRLF :: string where
  "CRLF = [CHR 0x0D, CHR 0x0A]"

fun joinLines :: "string list \<Rightarrow> string" where
  "joinLines [] = []"
| "joinLines [l] = l"
| "joinLines (l # ls) = l @ CRLF @ joinLines ls"

definition buildIcs :: "event list \<Rightarrow> string \<Rightarrow> string" where
  "buildIcs events nowIso = joinLines (icsLines events nowIso) @ CRLF"

section \<open>The run\<close>

text \<open>A commitment of the fetched document, with the two fields the run reads: each is
  a string, or \<open>None\<close> when it is missing or \<^verbatim>\<open>null\<close>.\<close>

record gig =
  date :: "string option"
  time :: "string option"

record apiData =
  server_date :: string
  gigs :: "gig list"

text \<open>\<^verbatim>\<open>!g?.date || !g?.time\<close>: a missing and an empty string are both skipped.\<close>

definition usable :: "gig \<Rightarrow> bool" where
  "usable g = (date g \<noteq> None \<and> date g \<noteq> Some [] \<and> time g \<noteq> None \<and> time g \<noteq> Some [])"

fun groupByDate :: "gig list \<Rightarrow> (string \<rightharpoonup> gig list) \<Rightarrow> (string \<rightharpoonup> gig list)" where
  "groupByDate [] byDate = byDate"
| "groupByDate (g # gs) byDate =
     (if \<not> usable g then groupByDate gs byDate
      else (case date g of
              None \<Rightarrow> groupByDate gs byDate
            | Some d \<Rightarrow>
                (let arr = (case byDate d of None \<Rightarrow> [] | Some xs \<Rightarrow> xs) in
                 groupByDate gs (byDate(d \<mapsto> arr @ [g])))))"

text \<open>The loop over \<open>gigsForDay\<close> that fills \<open>busy\<close>; a string that does not parse ends
  it with the error thrown.\<close>

fun busyLoop :: "gig list \<Rightarrow> interval list \<Rightarrow> error + interval list" where
  "busyLoop [] busy = Inr busy"
| "busyLoop (g # gs) busy =
     (case time g of
        None \<Rightarrow> Inl TypeError
      | Some t \<Rightarrow>
          (case parseRange t of
             Inl e \<Rightarrow> Inl e
           | Inr r \<Rightarrow>
               (let startMin' = hh (start r) * 60 + mm (start r);
                    endMin' = hh (endT r) * 60 + mm (endT r)
                in busyLoop gs
                     (busy @ [\<lparr>startMin = clamp (startMin' - 60) 0 1440,
                               endMin = clamp (endMin' + 60) 0 1440\<rparr>]))))"

text \<open>The rest of the loop body for one weekday \<open>ymd\<close>: the events of the day, none when
  the morning window is empty or inverted (the \<^verbatim>\<open>continue\<close>), or the error thrown while
  reading the day's commitments.\<close>

definition dayEvents :: "string \<Rightarrow> gig list \<Rightarrow> error + event list" where
  "dayEvents ymd gigsForDay =
     (case busyLoop gigsForDay [] of
        Inl e \<Rightarrow> Inl e
      | Inr busy \<Rightarrow>
          (let busyMerged = mergeIntervals busy;
               morningStartMin = hmToMinutes BREAKFAST_END;
               defaultEndMin = hmToMinutes DEFAULT_END;
               morningEndMin = chooseMorningEnd busyMerged defaultEndMin
           in if morningEndMin \<le> morningStartMin then Inr []
              else
                (let available = [\<lparr>startMin = morningStartMin, endMin = morningEndMin\<rparr>];
                     free = filter (\<lambda>x. endMin x > startMin x)
                              (subtractIntervals available busyMerged)
                 in Inr (scheduleBlocks free ymd))))"

definition isWeekday :: "jsval \<Rightarrow> bool" where
  "isWeekday dow = (case dow of Num n \<Rightarrow> n \<ge> 1 \<and> n \<le> 5 | _ \<Rightarrow> False)"

definition gigsFor :: "(string \<rightharpoonup> gig list) \<Rightarrow> string \<Rightarrow> gig list" where
  "gigsFor byDate ymd = (case byDate ymd of None \<Rightarrow> [] | Some xs \<Rightarrow> xs)"

text \<open>The loop over the day offsets \<open>i\<close>.\<close>

fun daysLoop :: "string \<Rightarrow> (string \<rightharpoonup> gig list) \<Rightarrow> nat list \<Rightarrow> event list \<Rightarrow> error + event list" where
  "daysLoop today byDate [] allEvents = Inr allEvents"
| "daysLoop today byDate (i # is) allEvents =
     (let ymd = addDaysYmd today (int i) in
      if \<not> isWeekday (weekdayIndexUTC ymd) then daysLoop today byDate is allEvents
      else (case dayEvents ymd (gigsFor byDate ymd) of
              Inl e \<Rightarrow> Inl e
            | Inr evs \<Rightarrow> daysLoop today byDate is (allEvents @ evs)))"

definition runEvents :: "apiData \<Rightarrow> error + event list" where
  "runEvents data =
     daysLoop (server_date data) (groupByDate (gigs data) Map.empty) [0..<DAYS] []"

text \<open>The run, after the fetch: \<open>Inr\<close> is the text written to
  \<^verbatim>\<open>docs/timeblocking.ics\<close>, \<open>Inl\<close> the error that ends the run before anything is
  written.\<close>

definition main :: "apiData \<Rightarrow> string \<Rightarrow> error + string" where
  "main data nowIso =
     (case runEvents data of
        Inl e \<Rightarrow> Inl e
      | Inr allEvents \<Rightarrow> Inr (buildIcs allEvents nowIso))"

section \<open>Notions of the specification\<close>

text \<open>Minute \<open>m\<close> lies in one of the half-open intervals \<open>[startMin, endMin)\<close>.\<close>

definition covers :: "interval list \<Rightarrow> int \<Rightarrow> bool" where
  "covers xs m = (\<exists>i \<in> set xs. startMin i \<le> m \<and> m < endMin i)"

text \<open>A merged list: non-empty intervals in increasing order, each ending strictly before
  every later one starts.\<close>

definition strictlySeparated :: "interval list \<Rightarrow> bool" where
  "strictlySeparated xs =
     ((\<forall>i \<in> set xs. startMin i < endMin i) \<and> sorted_wrt (\<lambda>a b. endMin a < startMin b) xs)"

text \<open>A disjoint list in increasing order: as above, but two neighbours may touch.\<close>

definition separated :: "interval list \<Rightarrow> bool" where
  "separated xs =
     ((\<forall>i \<in> set xs. startMin i < endMin i) \<and> sorted_wrt (\<lambda>a b. endMin a \<le> startMin b) xs)"

text \<open>The free intervals of a day as \<open>dayEvents\<close> computes them from the merged busy
  intervals: none when the morning window is empty or inverted.\<close>

definition freeOfDay :: "interval list \<Rightarrow> interval list" where
  "freeOfDay busyMerged =
     (let morningStartMin = hmToMinutes BREAKFAST_END;
          defaultEndMin = hmToMinutes DEFAULT_END;
          morningEndMin = chooseMorningEnd busyMerged defaultEndMin
      in if morningEndMin \<le> morningStartMin then []
         else filter (\<lambda>x. endMin x > startMin x)
                (subtractIntervals [\<lparr>startMin = morningStartMin, endMin = morningEndMin\<rparr>]
                   busyMerged))"

text \<open>The placements behind the events of a weekday.\<close>

definition planDay :: "gig list \<Rightarrow> error + placement list" where
  "planDay gigsForDay =
     (case busyLoop gigsForDay [] of
        Inl e \<Rightarrow> Inl e
      | Inr busy \<Rightarrow> Inr (placeBlocks BLOCKS (freeOfDay (mergeIntervals busy)) []))"

text \<open>What \<^verbatim>\<open>subtractIntervals\<close> pushes for one available interval \<open>a\<close>, the cursor
  starting at \<open>cursor\<close>: the output of the inner loop, then the remaining tail.\<close>

definition piecesOf :: "interval \<Rightarrow> interval list \<Rightarrow> int \<Rightarrow> interval list" where
  "piecesOf a busy cursor =
     (case subtractBusy a busy cursor [] of
        (cursor', out') \<Rightarrow>
          (if cursor' < endMin a then out' @ [\<lparr>startMin = cursor', endMin = endMin a\<rparr>] else out'))"

text \<open>Every interval of \<open>xs\<close> lies between \<open>lo\<close> and \<open>hi\<close>.\<close>

definition within :: "int \<Rightarrow> int \<Rightarrow> interval list \<Rightarrow> bool" where
  "within lo hi xs = (\<forall>p \<in> set xs. lo \<le> startMin p \<and> endMin p \<le> hi)"

text \<open>Two intervals overlap when some minute lies in both.\<close>

definition overlaps :: "'a interval_scheme \<Rightarrow> 'b interval_scheme \<Rightarrow> bool" where
  "overlaps a b = (max (startMin a) (startMin b) < min (endMin a) (endMin b))"

text \<open>\<open>p\<close> lies inside \<open>it\<close>.\<close>

definition inside :: "'a interval_scheme \<Rightarrow> 'b interval_scheme \<Rightarrow> bool" where
  "inside p it = (startMin it \<le> startMin p \<and> endMin p \<le> endMin it)"

text \<open>The day at offset \<open>i\<close> from the anchor day, and the offsets of the run whose day is a
  Monday to Friday.\<close>

definition dayOf :: "string \<Rightarrow> nat \<Rightarrow> string" where
  "dayOf today i = addDaysYmd today (int i)"

definition weekdayOffsets :: "string \<Rightarrow> nat list" where
  "weekdayOffsets today = filter (\<lambda>i. isWeekday (weekdayIndexUTC (dayOf today i))) [0..<DAYS]"

text \<open>The commitments the run groups under the day \<open>ymd\<close>.\<close>

definition gigsOn :: "gig list \<Rightarrow> string \<Rightarrow> gig list" where
  "gigsOn gs ymd = filter (\<lambda>g. usable g \<and> date g = Some ymd) gs"

text \<open>A commitment dated on a Monday to Friday among the days of the run.\<close>

definition relevant :: "string \<Rightarrow> gig \<Rightarrow> bool" where
  "relevant today g = (\<exists>i \<in> set (weekdayOffsets today). date g = Some (dayOf today i))"

text \<open>The results of the days in order: the first error, or all the events.\<close>

fun collect :: "(error + event list) list \<Rightarrow> error + event list" where
  "collect [] = Inr []"
| "collect (Inl e # rs) = Inl e"
| "collect (Inr evs # rs) = (case collect rs of Inl e \<Rightarrow> Inl e | Inr r \<Rightarrow> Inr (evs @ r))"

text \<open>The day number that \<^verbatim>\<open>addDaysYmd\<close> and \<^verbatim>\<open>weekdayIndexUTC\<close> build from the text of
  a day, and the text \<^verbatim>\<open>addDaysYmd\<close> writes for a day number.\<close>

definition dayNumber :: "string \<Rightarrow> int option" where
  "dayNumber ymd = (case ymdToDateParts ymd of (y, m, d) \<Rightarrow> DateUTC y (jsMinus1 m) d)"

definition ymdOfDay :: "int \<Rightarrow> string" where
  "ymdOfDay t =
     jsString (Num (YearFromDay t)) @ ''-'' @ pad2 (Num (MonthFromDay t + 1)) @ ''-''
       @ pad2 (Num (DateFromDay t))"

text \<open>The scheduled blocks of a run, each with its day, in the order of the events; and
  the merged busy intervals of a day of the run.\<close>

definition scheduledBlocks :: "apiData \<Rightarrow> (string \<times> placement) list" where
  "scheduledBlocks data =
     concat (map (\<lambda>i. case planDay (gigsOn (gigs data) (dayOf (server_date data) i)) of
                          Inl e \<Rightarrow> []
                        | Inr ps \<Rightarrow> map (Pair (dayOf (server_date data) i)) ps)
               (weekdayOffsets (server_date data)))"

definition busyOfDay :: "apiData \<Rightarrow> string \<Rightarrow> interval list" where
  "busyOfDay data ymd =
     (case busyLoop (gigsOn (gigs data) ymd) [] of
        Inl e \<Rightarrow> [] | Inr busy \<Rightarrow> mergeIntervals busy)"

section \<open>Merging\<close>

lemma covers_Nil [simp]: "covers [] m = False"
  by (simp add: covers_def)

lemma covers_Cons: "covers (a # xs) m = ((startMin a \<le> m \<and> m < endMin a) \<or> covers xs m)"
  by (auto simp: covers_def)

lemma covers_append: "covers (xs @ ys) m = (covers xs m \<or> covers ys m)"
  by (auto simp: covers_def)

lemma strictlySeparated_Nil [simp]: "strictlySeparated []"
  by (simp add: strictlySeparated_def)

lemma strictlySeparated_snoc:
  "strictlySeparated (ys @ [l]) =
     (strictlySeparated ys \<and> startMin l < endMin l \<and> (\<forall>a \<in> set ys. endMin a < startMin l))"
  by (auto simp: strictlySeparated_def sorted_wrt_append)

lemma mergeLoop_Nil_acc:
  "mergeLoop [] (i # rest) = mergeLoop [i] rest"
  by simp

lemma mergeLoop_push:
  "endMin l < startMin i \<Longrightarrow> mergeLoop (ys @ [l]) (i # rest) = mergeLoop ((ys @ [l]) @ [i]) rest"
  by simp

lemma mergeLoop_extend:
  "\<not> endMin l < startMin i \<Longrightarrow>
   mergeLoop (ys @ [l]) (i # rest) =
   mergeLoop (ys @ [l\<lparr>endMin := max (endMin l) (endMin i)\<rparr>]) rest"
  by simp

lemma covers_single: "covers [a] m = (startMin a \<le> m \<and> m < endMin a)"
  by (simp add: covers_def)

lemma covers_extend:
  assumes "startMin l \<le> startMin i" "startMin i \<le> endMin l"
  shows "covers [l\<lparr>endMin := max (endMin l) (endMin i)\<rparr>] m = (covers [l] m \<or> covers [i] m)"
  using assms unfolding covers_single by auto

lemma mergeLoop_correct:
  "strictlySeparated acc \<Longrightarrow> sorted (map startMin rest) \<Longrightarrow>
   \<forall>i \<in> set rest. startMin i < endMin i \<Longrightarrow>
   (\<forall>l i. acc \<noteq> [] \<and> l = last acc \<and> i \<in> set rest \<longrightarrow> startMin l \<le> startMin i) \<Longrightarrow>
   strictlySeparated (mergeLoop acc rest) \<and>
   (\<forall>m. covers (mergeLoop acc rest) m = (covers acc m \<or> covers rest m))"
proof (induction rest arbitrary: acc)
  case Nil
  then show ?case by simp
next
  case (Cons i rest)
  have i: "startMin i < endMin i" using Cons.prems(3) by simp
  have srt: "sorted (map startMin rest)" using Cons.prems(2) by simp
  have ne: "\<forall>j \<in> set rest. startMin j < endMin j" using Cons.prems(3) by simp
  have ij: "\<forall>j \<in> set rest. startMin i \<le> startMin j" using Cons.prems(2) by simp
  show ?case
  proof (cases acc rule: rev_cases)
    case Nil
    have sep: "strictlySeparated [i]"
      using i by (simp add: strictlySeparated_def)
    have ord: "\<forall>l j. [i] \<noteq> [] \<and> l = last [i] \<and> j \<in> set rest \<longrightarrow> startMin l \<le> startMin j"
      using ij by simp
    have "strictlySeparated (mergeLoop [i] rest) \<and>
      (\<forall>m. covers (mergeLoop [i] rest) m = (covers [i] m \<or> covers rest m))"
      by (rule Cons.IH[OF sep srt ne ord])
    then show ?thesis unfolding Nil mergeLoop_Nil_acc covers_Cons[of i rest] covers_single
      by simp
  next
    case (snoc ys l)
    have l: "startMin l < endMin l" and ysl: "\<forall>a \<in> set ys. endMin a < startMin l"
      and sys: "strictlySeparated ys"
      using Cons.prems(1) unfolding snoc strictlySeparated_snoc by blast+
    have sl: "startMin l \<le> startMin i" using Cons.prems(4) snoc by simp
    show ?thesis
    proof (cases "endMin l < startMin i")
      case True
      have "\<forall>a \<in> set (ys @ [l]). endMin a < startMin i"
        using ysl l True by auto
      then have sep: "strictlySeparated ((ys @ [l]) @ [i])"
        using Cons.prems(1) i unfolding snoc strictlySeparated_snoc[of "ys @ [l]" i] by blast
      have ord: "\<forall>l' j. (ys @ [l]) @ [i] \<noteq> [] \<and> l' = last ((ys @ [l]) @ [i]) \<and> j \<in> set rest
                   \<longrightarrow> startMin l' \<le> startMin j"
        using ij by simp
      have "strictlySeparated (mergeLoop ((ys @ [l]) @ [i]) rest) \<and>
        (\<forall>m. covers (mergeLoop ((ys @ [l]) @ [i]) rest) m = (covers ((ys @ [l]) @ [i]) m \<or> covers rest m))"
        by (rule Cons.IH[OF sep srt ne ord])
      then show ?thesis
        unfolding snoc mergeLoop_push[OF True] covers_append[of "ys @ [l]" "[i]"] covers_Cons[of i rest] covers_single
        by blast
    next
      case False
      let ?l' = "l\<lparr>endMin := max (endMin l) (endMin i)\<rparr>"
      have sep: "strictlySeparated (ys @ [?l'])"
        using sys l ysl unfolding strictlySeparated_snoc by simp
      have ord: "\<forall>l'' j. ys @ [?l'] \<noteq> [] \<and> l'' = last (ys @ [?l']) \<and> j \<in> set rest
                   \<longrightarrow> startMin l'' \<le> startMin j"
        using ij sl by fastforce
      have cov: "\<And>m. covers (ys @ [?l']) m = (covers (ys @ [l]) m \<or> covers [i] m)"
        using covers_extend[OF sl, of ] False unfolding covers_append[of ys] by auto
      have "strictlySeparated (mergeLoop (ys @ [?l']) rest) \<and>
        (\<forall>m. covers (mergeLoop (ys @ [?l']) rest) m = (covers (ys @ [?l']) m \<or> covers rest m))"
        by (rule Cons.IH[OF sep srt ne ord])
      then show ?thesis
        unfolding snoc mergeLoop_extend[OF False] cov covers_Cons[of i rest] covers_single
        by blast
    qed
  qed
qed

lemma covers_sort_key: "covers (sort_key f xs) m = covers xs m"
  by (simp add: covers_def)

lemma covers_filter_nonempty: "covers (filter (\<lambda>i. endMin i > startMin i) xs) m = covers xs m"
  unfolding covers_def by fastforce

lemma mergeIntervals_loop:
  "strictlySeparated (mergeIntervals xs) \<and>
   (\<forall>m. covers (mergeIntervals xs) m =
      covers (sort_key startMin (filter (\<lambda>i. endMin i > startMin i) xs)) m)"
proof -
  let ?s = "sort_key startMin (filter (\<lambda>i. endMin i > startMin i) xs)"
  have a: "strictlySeparated []" by simp
  have b: "sorted (map startMin ?s)" by (rule sorted_sort_key)
  have c: "\<forall>i \<in> set ?s. startMin i < endMin i" by simp
  have d: "\<forall>l i. ([]::interval list) \<noteq> [] \<and> l = last [] \<and> i \<in> set ?s \<longrightarrow> startMin l \<le> startMin i"
    by simp
  from mergeLoop_correct[OF a b c d] show ?thesis
    unfolding mergeIntervals_def by simp
qed

lemma mergeIntervals_separated: "strictlySeparated (mergeIntervals xs)"
  using mergeIntervals_loop by blast

lemma mergeIntervals_covers: "covers (mergeIntervals xs) m = covers xs m"
  using mergeIntervals_loop[of xs] unfolding covers_sort_key covers_filter_nonempty by simp

lemma strictlySeparated_sorted:
  "strictlySeparated xs \<Longrightarrow> sorted_wrt (\<lambda>a b. startMin a < startMin b) xs"
  unfolding strictlySeparated_def
  by (elim conjE, erule sorted_wrt_mono_rel[rotated]) fastforce

text \<open>
  Claim C2. \<^verbatim>\<open>mergeIntervals\<close> first drops every interval whose end is not after its
  start: the result is that of the kept intervals alone. The result is sorted by start,
  every interval of it is non-empty and ends strictly before the next one starts (no two
  touch or overlap), and a minute is covered by the result exactly when it is covered by
  a kept interval.
\<close>

theorem mergeIntervals_correct:
  "mergeIntervals xs = mergeIntervals (filter (\<lambda>i. endMin i > startMin i) xs) \<and>
   sorted_wrt (\<lambda>a b. startMin a < startMin b) (mergeIntervals xs) \<and>
   sorted_wrt (\<lambda>a b. endMin a < startMin b) (mergeIntervals xs) \<and>
   (\<forall>i \<in> set (mergeIntervals xs). startMin i < endMin i) \<and>
   (\<forall>m. covers (mergeIntervals xs) m = covers (filter (\<lambda>i. endMin i > startMin i) xs) m)"
proof -
  have "filter (\<lambda>i. endMin i > startMin i) (filter (\<lambda>i. endMin i > startMin i) xs)
        = filter (\<lambda>i. endMin i > startMin i) xs"
    by (induction xs) simp_all
  then have 1: "mergeIntervals xs = mergeIntervals (filter (\<lambda>i. endMin i > startMin i) xs)"
    unfolding mergeIntervals_def by (simp only:)
  have 2: "strictlySeparated (mergeIntervals xs)" by (rule mergeIntervals_separated)
  from 2 have 3: "sorted_wrt (\<lambda>a b. startMin a < startMin b) (mergeIntervals xs)"
    by (rule strictlySeparated_sorted)
  have 4: "\<forall>m. covers (mergeIntervals xs) m = covers (filter (\<lambda>i. endMin i > startMin i) xs) m"
    unfolding mergeIntervals_covers covers_filter_nonempty by simp
  from 1 2 3 4 show ?thesis unfolding strictlySeparated_def by blast
qed

theorem mergeIntervals_correct_witness:
  "mergeIntervals [\<lparr>startMin = 5, endMin = 9\<rparr>, \<lparr>startMin = 1, endMin = 5\<rparr>,
                   \<lparr>startMin = 7, endMin = 7\<rparr>, \<lparr>startMin = 20, endMin = 30\<rparr>]
     = [\<lparr>startMin = 1, endMin = 9\<rparr>, \<lparr>startMin = 20, endMin = 30\<rparr>] \<and>
   sorted_wrt (\<lambda>a b. endMin a < startMin b)
     (mergeIntervals [\<lparr>startMin = 5, endMin = 9\<rparr>, \<lparr>startMin = 1, endMin = 5\<rparr>,
                      \<lparr>startMin = 7, endMin = 7\<rparr>, \<lparr>startMin = 20, endMin = 30\<rparr>]) \<and>
   covers (mergeIntervals [\<lparr>startMin = 5, endMin = 9\<rparr>, \<lparr>startMin = 1, endMin = 5\<rparr>,
                           \<lparr>startMin = 7, endMin = 7\<rparr>, \<lparr>startMin = 20, endMin = 30\<rparr>]) 7"
  using mergeIntervals_correct [of "[\<lparr>startMin = 5, endMin = 9\<rparr>, \<lparr>startMin = 1, endMin = 5\<rparr>,
                   \<lparr>startMin = 7, endMin = 7\<rparr>, \<lparr>startMin = 20, endMin = 30\<rparr>]"]
  by (simp add: mergeIntervals_def covers_def)

section \<open>Subtraction\<close>

lemma subtractBusy_acc:
  "subtractBusy a bs c out =
     (fst (subtractBusy a bs c []), out @ snd (subtractBusy a bs c []))"
proof (induction bs arbitrary: c out)
  case Nil
  show ?case by simp
next
  case (Cons b bs)
  show ?case
  proof (cases "endMin b \<le> c")
    case True
    then show ?thesis using Cons.IH[of c out] by simp
  next
    case False
    note nb = False
    show ?thesis
    proof (cases "startMin b \<ge> endMin a")
      case True
      then show ?thesis using nb by simp
    next
      case False
      let ?p = "(if startMin b > c then [\<lparr>startMin = c, endMin = min (startMin b) (endMin a)\<rparr>] else [])"
      show ?thesis
      proof (cases "max c (endMin b) \<ge> endMin a")
        case True
        then show ?thesis using nb False by (simp add: Let_def)
      next
        case False
        have 1: "subtractBusy a (b # bs) c out = subtractBusy a bs (max c (endMin b)) (out @ ?p)"
          using nb \<open>\<not> endMin a \<le> startMin b\<close> False by (simp add: Let_def)
        have 2: "subtractBusy a (b # bs) c [] = subtractBusy a bs (max c (endMin b)) ?p"
          using nb \<open>\<not> endMin a \<le> startMin b\<close> False by (simp add: Let_def)
        show ?thesis
          unfolding 1 2
          using Cons.IH[of "max c (endMin b)" "out @ ?p"] Cons.IH[of "max c (endMin b)" "?p"]
          by simp
      qed
    qed
  qed
qed

lemma piecesOf_Nil:
  "piecesOf a [] c = (if c < endMin a then [\<lparr>startMin = c, endMin = endMin a\<rparr>] else [])"
  by (simp add: piecesOf_def)

lemma piecesOf_skip:
  "endMin b \<le> c \<Longrightarrow> piecesOf a (b # bs) c = piecesOf a bs c"
  by (simp add: piecesOf_def)

lemma piecesOf_break:
  "\<not> endMin b \<le> c \<Longrightarrow> endMin a \<le> startMin b \<Longrightarrow>
   piecesOf a (b # bs) c = (if c < endMin a then [\<lparr>startMin = c, endMin = endMin a\<rparr>] else [])"
  by (simp add: piecesOf_def)

lemma piecesOf_last:
  "\<not> endMin b \<le> c \<Longrightarrow> \<not> endMin a \<le> startMin b \<Longrightarrow> endMin a \<le> max c (endMin b) \<Longrightarrow>
   piecesOf a (b # bs) c =
     (if startMin b > c then [\<lparr>startMin = c, endMin = min (startMin b) (endMin a)\<rparr>] else [])"
  by (simp add: piecesOf_def Let_def)

lemma piecesOf_step:
  assumes "\<not> endMin b \<le> c" "\<not> endMin a \<le> startMin b" "\<not> endMin a \<le> max c (endMin b)"
  shows "piecesOf a (b # bs) c =
     (if startMin b > c then [\<lparr>startMin = c, endMin = min (startMin b) (endMin a)\<rparr>] else [])
     @ piecesOf a bs (max c (endMin b))"
proof -
  let ?p = "(if startMin b > c then [\<lparr>startMin = c, endMin = min (startMin b) (endMin a)\<rparr>] else [])"
  have 2: "subtractBusy a (b # bs) c [] = subtractBusy a bs (max c (endMin b)) ?p"
    using assms by (simp add: Let_def)
  show ?thesis
    unfolding piecesOf_def 2
    using subtractBusy_acc[of a bs "max c (endMin b)" ?p]
    by (simp add: case_prod_beta)
qed


lemma separated_Cons:
  "separated (b # bs) =
     (startMin b < endMin b \<and> (\<forall>x \<in> set bs. endMin b \<le> startMin x) \<and> separated bs)"
  unfolding separated_def by auto

lemma separated_Nil [simp]: "separated []"
  by (simp add: separated_def)

lemma separated_single: "separated [a] = (startMin a < endMin a)"
  by (simp add: separated_def)

lemma separated_append:
  "separated (xs @ ys) =
     (separated xs \<and> separated ys \<and> (\<forall>x \<in> set xs. \<forall>y \<in> set ys. endMin x \<le> startMin y))"
  unfolding separated_def by (auto simp: sorted_wrt_append)

lemma not_covers_before:
  "\<forall>x \<in> set bs. hi \<le> startMin x \<Longrightarrow> m < hi \<Longrightarrow> \<not> covers bs m"
  unfolding covers_def by fastforce

lemma piecesOf_correct:
  "separated bs \<Longrightarrow> c < endMin a \<Longrightarrow>
   separated (piecesOf a bs c) \<and> within c (endMin a) (piecesOf a bs c) \<and>
   (\<forall>m. covers (piecesOf a bs c) m = (c \<le> m \<and> m < endMin a \<and> \<not> covers bs m))"
proof (induction bs arbitrary: c)
  case Nil
  then show ?case
    by (simp add: piecesOf_Nil separated_single within_def covers_single)
next
  case (Cons b bs)
  have b: "startMin b < endMin b" and bbs: "\<forall>x \<in> set bs. endMin b \<le> startMin x"
    and sbs: "separated bs"
    using Cons.prems(1) unfolding separated_Cons by blast+
  show ?case
  proof (cases "endMin b \<le> c")
    case True
    have "\<And>m. c \<le> m \<Longrightarrow> covers (b # bs) m = covers bs m"
      using True unfolding covers_Cons by auto
    then show ?thesis
      using Cons.IH[OF sbs Cons.prems(2)] unfolding piecesOf_skip[OF True] by blast
  next
    case False
    note nskip = False
    show ?thesis
    proof (cases "endMin a \<le> startMin b")
      case True
      have "\<forall>x \<in> set (b # bs). endMin a \<le> startMin x"
        using True b bbs by fastforce
      then have "\<And>m. m < endMin a \<Longrightarrow> \<not> covers (b # bs) m"
        by (rule not_covers_before)
      then show ?thesis
        using Cons.prems(2) unfolding piecesOf_break[OF nskip True]
        by (auto simp: separated_single within_def covers_single)
    next
      case False
      note nbreak = False
      let ?p = "(if startMin b > c then [\<lparr>startMin = c, endMin = min (startMin b) (endMin a)\<rparr>] else [])"
      have mx: "max c (endMin b) = endMin b" using nskip by simp
      have mn: "min (startMin b) (endMin a) = startMin b" using nbreak by simp
      have sp: "separated ?p" by (simp add: separated_single mn)
      have wp: "within c (startMin b) ?p" by (simp add: within_def mn)
      have cp: "\<And>m. covers ?p m = (c \<le> m \<and> m < startMin b)"
        by (simp add: covers_single mn)
      have nobs: "\<And>m. m < endMin b \<Longrightarrow> \<not> covers bs m"
        using bbs by (rule not_covers_before)
      show ?thesis
      proof (cases "endMin a \<le> max c (endMin b)")
        case True
        have eq: "piecesOf a (b # bs) c = ?p"
          by (rule piecesOf_last[OF nskip nbreak True])
        have w: "within c (endMin a) ?p"
          using wp nbreak unfolding within_def by fastforce
        have cov: "\<And>m. covers ?p m = (c \<le> m \<and> m < endMin a \<and> \<not> covers (b # bs) m)"
          unfolding cp covers_Cons using True nbreak nobs mx by fastforce
        show ?thesis unfolding eq using sp w cov by blast
      next
        case False
        have eq: "piecesOf a (b # bs) c = ?p @ piecesOf a bs (endMin b)"
          using piecesOf_step[OF nskip nbreak False] unfolding mx .
        have lt: "endMin b < endMin a" using False mx by simp
        note IH = Cons.IH[OF sbs lt]
        have s: "separated (?p @ piecesOf a bs (endMin b))"
          unfolding separated_append using sp IH wp b unfolding within_def by fastforce
        have w: "within c (endMin a) (?p @ piecesOf a bs (endMin b))"
          using wp IH nskip nbreak unfolding within_def by fastforce
        have cov: "\<And>m. covers (?p @ piecesOf a bs (endMin b)) m
                     = (c \<le> m \<and> m < endMin a \<and> \<not> covers (b # bs) m)"
        proof -
          fix m
          have i: "covers (piecesOf a bs (endMin b)) m = (endMin b \<le> m \<and> m < endMin a \<and> \<not> covers bs m)"
            using IH by blast
          show "covers (?p @ piecesOf a bs (endMin b)) m
                     = (c \<le> m \<and> m < endMin a \<and> \<not> covers (b # bs) m)"
            unfolding covers_append cp i covers_Cons
            using nobs[of m] nskip nbreak b by auto
        qed
        show ?thesis unfolding eq using s w cov by blast
      qed
    qed
  qed
qed


lemma subtractLoop_acc:
  "subtractLoop as busy out = out @ subtractLoop as busy []"
proof (induction as arbitrary: out)
  case Nil
  show ?case by simp
next
  case (Cons a as)
  obtain c o' where r: "subtractBusy a busy (startMin a) [] = (c, o')"
    by (cases "subtractBusy a busy (startMin a) []") auto
  have r': "subtractBusy a busy (startMin a) out = (c, out @ o')"
    using subtractBusy_acc[of a busy "startMin a" out] r by simp
  let ?t = "(if c < endMin a then [\<lparr>startMin = c, endMin = endMin a\<rparr>] else [])"
  have 1: "subtractLoop (a # as) busy out = subtractLoop as busy (out @ o' @ ?t)"
    using r' by simp
  have 2: "subtractLoop (a # as) busy [] = subtractLoop as busy (o' @ ?t)"
    using r by simp
  show ?case
    unfolding 1 2
    using Cons.IH[of "out @ o' @ ?t"] Cons.IH[of "o' @ ?t"] by simp
qed

lemma subtractLoop_Cons:
  "subtractLoop (a # as) busy [] = piecesOf a busy (startMin a) @ subtractLoop as busy []"
proof -
  obtain c o' where r: "subtractBusy a busy (startMin a) [] = (c, o')"
    by (cases "subtractBusy a busy (startMin a) []") auto
  let ?t = "(if c < endMin a then [\<lparr>startMin = c, endMin = endMin a\<rparr>] else [])"
  have 2: "subtractLoop (a # as) busy [] = subtractLoop as busy (o' @ ?t)"
    using r by simp
  have 3: "piecesOf a busy (startMin a) = o' @ ?t"
    unfolding piecesOf_def r by simp
  show ?thesis unfolding 2 3 using subtractLoop_acc[of as busy "o' @ ?t"] by simp
qed

lemma subtractLoop_lower:
  "separated as \<Longrightarrow> separated busy \<Longrightarrow> \<forall>x \<in> set as. lo \<le> startMin x \<Longrightarrow>
   \<forall>p \<in> set (subtractLoop as busy []). lo \<le> startMin p"
proof (induction as)
  case Nil
  show ?case by simp
next
  case (Cons a as)
  have a: "startMin a < endMin a" and sas: "separated as"
    using Cons.prems(1) unfolding separated_Cons by blast+
  have "within (startMin a) (endMin a) (piecesOf a busy (startMin a))"
    using piecesOf_correct[OF Cons.prems(2) a] by blast
  then have 1: "\<forall>p \<in> set (piecesOf a busy (startMin a)). lo \<le> startMin p"
    using Cons.prems(3) unfolding within_def by fastforce
  have 2: "\<forall>p \<in> set (subtractLoop as busy []). lo \<le> startMin p"
    using Cons.IH[OF sas Cons.prems(2)] Cons.prems(3) by simp
  show ?case unfolding subtractLoop_Cons using 1 2 by auto
qed

lemma subtractLoop_correct:
  "separated as \<Longrightarrow> separated busy \<Longrightarrow>
   separated (subtractLoop as busy []) \<and>
   (\<forall>m. covers (subtractLoop as busy []) m = (covers as m \<and> \<not> covers busy m))"
proof (induction as)
  case Nil
  show ?case by simp
next
  case (Cons a as)
  have a: "startMin a < endMin a" and sas: "separated as"
    and aas: "\<forall>x \<in> set as. endMin a \<le> startMin x"
    using Cons.prems(1) unfolding separated_Cons by blast+
  note P = piecesOf_correct[OF Cons.prems(2) a]
  note IH = Cons.IH[OF sas Cons.prems(2)]
  have low: "\<forall>p \<in> set (subtractLoop as busy []). endMin a \<le> startMin p"
    by (rule subtractLoop_lower[OF sas Cons.prems(2) aas])
  have w: "\<forall>p \<in> set (piecesOf a busy (startMin a)). endMin p \<le> endMin a"
    using P unfolding within_def by blast
  have s: "separated (piecesOf a busy (startMin a) @ subtractLoop as busy [])"
    unfolding separated_append using P IH low w by fastforce
  have c: "\<And>m. covers (piecesOf a busy (startMin a) @ subtractLoop as busy []) m
             = (covers (a # as) m \<and> \<not> covers busy m)"
  proof -
    fix m
    have 1: "covers (piecesOf a busy (startMin a)) m
             = (startMin a \<le> m \<and> m < endMin a \<and> \<not> covers busy m)"
      using P by blast
    have 2: "covers (subtractLoop as busy []) m = (covers as m \<and> \<not> covers busy m)"
      using IH by blast
    show "covers (piecesOf a busy (startMin a) @ subtractLoop as busy []) m
             = (covers (a # as) m \<and> \<not> covers busy m)"
      unfolding covers_append 1 2 covers_Cons by blast
  qed
  show ?case unfolding subtractLoop_Cons using s c by blast
qed

lemma subtractIntervals_separated:
  "separated available \<Longrightarrow> separated busy \<Longrightarrow> separated (subtractIntervals available busy)"
  unfolding subtractIntervals_def using subtractLoop_correct by blast

lemma subtractIntervals_covers:
  "separated available \<Longrightarrow> separated busy \<Longrightarrow>
   covers (subtractIntervals available busy) m = (covers available m \<and> \<not> covers busy m)"
  unfolding subtractIntervals_def using subtractLoop_correct by blast

text \<open>
  Claim C3. When the available list and the busy list are both disjoint lists of
  non-empty intervals in increasing order, a minute is covered by the result of
  \<^verbatim>\<open>subtractIntervals\<close> exactly when it is covered by an available interval and by no
  busy interval; the result is again in increasing order and disjoint, and none of its
  intervals is empty.
\<close>

theorem subtractIntervals_correct:
  "separated available \<Longrightarrow> separated busy \<Longrightarrow>
   (\<forall>m. covers (subtractIntervals available busy) m
           = (covers available m \<and> \<not> covers busy m)) \<and>
   sorted_wrt (\<lambda>a b. endMin a \<le> startMin b) (subtractIntervals available busy) \<and>
   (\<forall>i \<in> set (subtractIntervals available busy). startMin i < endMin i)"
  using subtractIntervals_separated[of available busy] subtractIntervals_covers[of available busy]
  unfolding separated_def by blast

theorem subtractIntervals_correct_witness:
  "separated [\<lparr>startMin = 0, endMin = 100\<rparr>, \<lparr>startMin = 100, endMin = 200\<rparr>] \<and>
   separated [\<lparr>startMin = 5, endMin = 9\<rparr>, \<lparr>startMin = 50, endMin = 150\<rparr>,
              \<lparr>startMin = 190, endMin = 300\<rparr>] \<and>
   subtractIntervals [\<lparr>startMin = 0, endMin = 100\<rparr>, \<lparr>startMin = 100, endMin = 200\<rparr>]
     [\<lparr>startMin = 5, endMin = 9\<rparr>, \<lparr>startMin = 50, endMin = 150\<rparr>, \<lparr>startMin = 190, endMin = 300\<rparr>]
     = [\<lparr>startMin = 0, endMin = 5\<rparr>, \<lparr>startMin = 9, endMin = 50\<rparr>, \<lparr>startMin = 150, endMin = 190\<rparr>] \<and>
   sorted_wrt (\<lambda>a b. endMin a \<le> startMin b)
     (subtractIntervals [\<lparr>startMin = 0, endMin = 100\<rparr>, \<lparr>startMin = 100, endMin = 200\<rparr>]
        [\<lparr>startMin = 5, endMin = 9\<rparr>, \<lparr>startMin = 50, endMin = 150\<rparr>, \<lparr>startMin = 190, endMin = 300\<rparr>]) \<and>
   covers (subtractIntervals [\<lparr>startMin = 0, endMin = 100\<rparr>, \<lparr>startMin = 100, endMin = 200\<rparr>]
        [\<lparr>startMin = 5, endMin = 9\<rparr>, \<lparr>startMin = 50, endMin = 150\<rparr>, \<lparr>startMin = 190, endMin = 300\<rparr>]) 160"
proof -
  have a: "separated [\<lparr>startMin = 0, endMin = 100\<rparr>, \<lparr>startMin = 100, endMin = 200\<rparr>]"
    by (simp add: separated_def)
  have b: "separated [\<lparr>startMin = 5, endMin = 9\<rparr>, \<lparr>startMin = 50, endMin = 150\<rparr>,
              \<lparr>startMin = 190, endMin = 300\<rparr>]"
    by (simp add: separated_def)
  show ?thesis
    using a b subtractIntervals_correct[OF a b]
    by (simp add: subtractIntervals_def covers_def)
qed

section \<open>The morning window\<close>

lemma hmToMinutes_BREAKFAST_END: "hmToMinutes BREAKFAST_END = 510"
  by (simp add: hmToMinutes_def BREAKFAST_END_def jsNumber_def trim_def isSpace_def isDigit_def
      decimal_def digitVal_def part_def)

lemma hmToMinutes_DEFAULT_END: "hmToMinutes DEFAULT_END = 780"
  by (simp add: hmToMinutes_def DEFAULT_END_def jsNumber_def trim_def isSpace_def isDigit_def
      decimal_def digitVal_def part_def)

lemma earliestBusy_find:
  "earliestBusy busy = map_option startMin (List.find (\<lambda>b. 510 < endMin b) busy)"
  by (induction busy) (auto simp: hmToMinutes_BREAKFAST_END)

lemma chooseMorningEnd_find:
  "chooseMorningEnd busy d =
     (case List.find (\<lambda>b. 510 < endMin b) busy of
        None \<Rightarrow> d | Some b \<Rightarrow> clamp (startMin b) 0 d)"
  unfolding chooseMorningEnd_def earliestBusy_find by (simp split: option.split)

lemma strictlySeparated_Cons:
  "strictlySeparated (b # bs) =
     (startMin b < endMin b \<and> (\<forall>x \<in> set bs. endMin b < startMin x) \<and> strictlySeparated bs)"
  unfolding strictlySeparated_def by auto

lemma find_bridging:
  "strictlySeparated busy \<Longrightarrow> b \<in> set busy \<Longrightarrow> startMin b < 510 \<Longrightarrow> 510 < endMin b \<Longrightarrow>
   List.find (\<lambda>x. 510 < endMin x) busy = Some b"
proof (induction busy)
  case Nil
  then show ?case by simp
next
  case (Cons x xs)
  show ?case
  proof (cases "x = b")
    case True
    then show ?thesis using Cons.prems(4) by simp
  next
    case False
    then have bxs: "b \<in> set xs" using Cons.prems(2) by simp
    have "endMin x < startMin b" and sxs: "strictlySeparated xs"
      using Cons.prems(1) bxs unfolding strictlySeparated_Cons by blast+
    then have "\<not> 510 < endMin x" using Cons.prems(3) by simp
    then show ?thesis using Cons.IH[OF sxs bxs Cons.prems(3,4)] by simp
  qed
qed

lemma freeOfDay_closed:
  "chooseMorningEnd busy 780 \<le> 510 \<Longrightarrow> freeOfDay busy = []"
  by (simp add: freeOfDay_def hmToMinutes_BREAKFAST_END hmToMinutes_DEFAULT_END)

lemma placeBlocks_no_free: "placeBlocks bs [] acc = acc"
  by (induction bs arbitrary: acc) (simp_all add: firstFit.simps)

text \<open>
  Claim C4. With the fallback cutoff 780 (13:00), \<^verbatim>\<open>chooseMorningEnd\<close> returns the
  start of the first busy interval whose end exceeds 510 (08:30), clamped into
  \<open>[0, 780]\<close>, and 780 when there is none. When the closing time is at most 510 the day
  has no free interval and no block is placed, and the day's result is the empty list of
  events, not an error. In a merged busy list, an interval that starts before 510 and
  ends after it closes the window at its own start (at 0 if the start were negative),
  which is before 510.
\<close>

theorem chooseMorningEnd_correct:
  "chooseMorningEnd busy 780 =
     (case List.find (\<lambda>b. 510 < endMin b) busy of
        None \<Rightarrow> 780 | Some b \<Rightarrow> clamp (startMin b) 0 780) \<and>
   0 \<le> chooseMorningEnd busy 780 \<and> chooseMorningEnd busy 780 \<le> 780 \<and>
   (chooseMorningEnd busy 780 \<le> 510 \<longrightarrow>
      freeOfDay busy = [] \<and> placeBlocks BLOCKS (freeOfDay busy) [] = []) \<and>
   (busyLoop gigsForDay [] = Inr raw \<and> chooseMorningEnd (mergeIntervals raw) 780 \<le> 510 \<longrightarrow>
      dayEvents ymd gigsForDay = Inr []) \<and>
   (strictlySeparated busy \<and> b \<in> set busy \<and> startMin b < 510 \<and> 510 < endMin b \<longrightarrow>
      chooseMorningEnd busy 780 = max 0 (startMin b) \<and>
      (0 \<le> startMin b \<longrightarrow> chooseMorningEnd busy 780 = startMin b) \<and>
      chooseMorningEnd busy 780 < 510 \<and> freeOfDay busy = [])"
proof -
  have 1: "chooseMorningEnd busy 780 =
     (case List.find (\<lambda>b. 510 < endMin b) busy of
        None \<Rightarrow> 780 | Some b \<Rightarrow> clamp (startMin b) 0 780)"
    by (rule chooseMorningEnd_find)
  have 2: "0 \<le> chooseMorningEnd busy 780 \<and> chooseMorningEnd busy 780 \<le> 780"
    unfolding 1 by (simp add: clamp_def split: option.split)
  have 3: "chooseMorningEnd busy 780 \<le> 510 \<longrightarrow>
      freeOfDay busy = [] \<and> placeBlocks BLOCKS (freeOfDay busy) [] = []"
    by (simp add: freeOfDay_closed placeBlocks_no_free)
  have 4: "busyLoop gigsForDay [] = Inr raw \<and> chooseMorningEnd (mergeIntervals raw) 780 \<le> 510 \<longrightarrow>
      dayEvents ymd gigsForDay = Inr []"
    by (simp add: dayEvents_def hmToMinutes_BREAKFAST_END hmToMinutes_DEFAULT_END)
  have 5: "strictlySeparated busy \<and> b \<in> set busy \<and> startMin b < 510 \<and> 510 < endMin b \<longrightarrow>
      chooseMorningEnd busy 780 = max 0 (startMin b) \<and>
      (0 \<le> startMin b \<longrightarrow> chooseMorningEnd busy 780 = startMin b) \<and>
      chooseMorningEnd busy 780 < 510 \<and> freeOfDay busy = []"
  proof (intro impI, elim conjE)
    assume a: "strictlySeparated busy" "b \<in> set busy" "startMin b < 510" "510 < endMin b"
    have f: "List.find (\<lambda>x. 510 < endMin x) busy = Some b"
      by (rule find_bridging[OF a])
    have e: "chooseMorningEnd busy 780 = max 0 (startMin b)"
      unfolding 1 f using a(3) by (simp add: clamp_def)
    have l: "chooseMorningEnd busy 780 < 510" unfolding e using a(3) by simp
    then have "freeOfDay busy = []" by (simp add: freeOfDay_closed)
    moreover have "0 \<le> startMin b \<longrightarrow> chooseMorningEnd busy 780 = startMin b"
      unfolding e by simp
    ultimately show "chooseMorningEnd busy 780 = max 0 (startMin b) \<and>
      (0 \<le> startMin b \<longrightarrow> chooseMorningEnd busy 780 = startMin b) \<and>
      chooseMorningEnd busy 780 < 510 \<and> freeOfDay busy = []" using e l by blast
  qed
  from 1 2 3 4 5 show ?thesis by blast
qed

theorem chooseMorningEnd_correct_witness:
  "strictlySeparated [\<lparr>startMin = 420, endMin = 600\<rparr>] \<and>
   busyLoop [\<lparr>date = Some ''2026-02-24'', time = Some ''08:00 AM - 09:00 AM''\<rparr>] []
     = Inr [\<lparr>startMin = 420, endMin = 600\<rparr>] \<and>
   chooseMorningEnd [\<lparr>startMin = 420, endMin = 600\<rparr>] 780 = 420 \<and>
   freeOfDay [\<lparr>startMin = 420, endMin = 600\<rparr>] = [] \<and>
   dayEvents ''2026-02-24''
     [\<lparr>date = Some ''2026-02-24'', time = Some ''08:00 AM - 09:00 AM''\<rparr>] = Inr []"
proof -
  have s: "strictlySeparated [\<lparr>startMin = 420, endMin = 600\<rparr>]"
    by (simp add: strictlySeparated_def)
  have l: "busyLoop [\<lparr>date = Some ''2026-02-24'', time = Some ''08:00 AM - 09:00 AM''\<rparr>] []
     = Inr [\<lparr>startMin = 420, endMin = 600\<rparr>]"
    by code_simp
  have m: "mergeIntervals [\<lparr>startMin = 420, endMin = 600\<rparr>] = [\<lparr>startMin = 420, endMin = 600\<rparr>]"
    by (simp add: mergeIntervals_def)
  show ?thesis
    using s l m
      chooseMorningEnd_correct [where busy = "[\<lparr>startMin = 420, endMin = 600\<rparr>]"
        and b = "\<lparr>startMin = 420, endMin = 600\<rparr>"
        and raw = "[\<lparr>startMin = 420, endMin = 600\<rparr>]"
        and gigsForDay = "[\<lparr>date = Some ''2026-02-24'', time = Some ''08:00 AM - 09:00 AM''\<rparr>]"
        and ymd = "''2026-02-24''"]
    by simp
qed

section \<open>The packer\<close>

lemma firstFit_end: "\<not> idx < length rf \<Longrightarrow> firstFit needed rf idx = None"
  by (simp add: firstFit.simps)

lemma firstFit_skip:
  "idx < length rf \<Longrightarrow> endMin (rf ! idx) - startMin (rf ! idx) < needed \<Longrightarrow>
   firstFit needed rf idx = firstFit needed rf (Suc idx)"
  by (subst firstFit.simps) (simp add: Let_def)

lemma firstFit_hit:
  "idx < length rf \<Longrightarrow> \<not> endMin (rf ! idx) - startMin (rf ! idx) < needed \<Longrightarrow>
   firstFit needed rf idx = Some idx"
  by (subst firstFit.simps) (simp add: Let_def)

lemma firstFit_pre:
  "\<forall>x \<in> set pre. endMin x - startMin x < needed \<Longrightarrow> k \<le> length pre \<Longrightarrow>
   firstFit needed (pre @ rest) k = firstFit needed (pre @ rest) (length pre)"
proof (induction "length pre - k" arbitrary: k)
  case 0
  then show ?case by simp
next
  case (Suc n)
  then have k: "k < length pre" by simp
  then have "(pre @ rest) ! k \<in> set pre" by (simp add: nth_append)
  then have "endMin ((pre @ rest) ! k) - startMin ((pre @ rest) ! k) < needed"
    using Suc.prems(1) by blast
  then have "firstFit needed (pre @ rest) k = firstFit needed (pre @ rest) (Suc k)"
    using k by (intro firstFit_skip) simp_all
  moreover have "firstFit needed (pre @ rest) (Suc k) = firstFit needed (pre @ rest) (length pre)"
    using Suc.hyps(2) k Suc.prems(1) by (intro Suc.hyps(1)) simp_all
  ultimately show ?case by simp
qed

lemma firstFit_none:
  "\<forall>x \<in> set free. endMin x - startMin x < needed \<Longrightarrow> firstFit needed free 0 = None"
  using firstFit_pre[of free needed 0 "[]"] firstFit_end[of "length free" free needed] by simp

lemma firstFit_first:
  "\<forall>x \<in> set pre. endMin x - startMin x < needed \<Longrightarrow> needed \<le> endMin it - startMin it \<Longrightarrow>
   firstFit needed (pre @ it # post) 0 = Some (length pre)"
  using firstFit_pre[of pre needed 0 "it # post"]
    firstFit_hit[of "length pre" "pre @ it # post" needed] by simp

lemma placeBlocks_skip:
  "\<forall>x \<in> set free. endMin x - startMin x < minutes b \<Longrightarrow>
   placeBlocks (b # bs) free acc = placeBlocks bs free acc"
  by (simp add: firstFit_none)

lemma placeBlocks_place:
  "\<forall>x \<in> set pre. endMin x - startMin x < minutes b \<Longrightarrow>
   minutes b \<le> endMin it - startMin it \<Longrightarrow>
   placeBlocks (b # bs) (pre @ it # post) acc =
   placeBlocks bs
     (pre @ (if startMin it + minutes b + 15 < endMin it
             then [\<lparr>startMin = startMin it + minutes b + 15, endMin = endMin it\<rparr>] else []) @ post)
     (acc @ [\<lparr>startMin = startMin it, endMin = startMin it + minutes b, blk = b\<rparr>])"
  by (simp add: firstFit_first Let_def BREAK_MIN_def)

lemma placeBlocks_acc:
  "placeBlocks bs free acc = acc @ placeBlocks bs free []"
proof (induction bs arbitrary: free acc)
  case Nil
  show ?case by simp
next
  case (Cons b bs)
  show ?case
  proof (cases "firstFit (minutes b) free 0")
    case None
    then show ?thesis using Cons.IH[of free acc] by simp
  next
    case (Some idx)
    let ?it = "free ! idx"
    let ?rf = "take idx free @
       (if startMin ?it + minutes b + BREAK_MIN < endMin ?it
        then [\<lparr>startMin = startMin ?it + minutes b + BREAK_MIN, endMin = endMin ?it\<rparr>] else [])
       @ drop (idx + 1) free"
    let ?p = "\<lparr>startMin = startMin ?it, endMin = startMin ?it + minutes b, blk = b\<rparr>"
    have 1: "placeBlocks (b # bs) free acc = placeBlocks bs ?rf (acc @ [?p])"
      using Some by (simp add: Let_def)
    have 2: "placeBlocks (b # bs) free [] = placeBlocks bs ?rf [?p]"
      using Some by (simp add: Let_def)
    show ?thesis unfolding 1 2
      using Cons.IH[of ?rf "acc @ [?p]"] Cons.IH[of ?rf "[?p]"] by simp
  qed
qed

text \<open>
  Claim C5. The packer takes the blocks in the order of the list. For the block \<open>b\<close> at
  the head: when no free interval is as long as its duration, \<open>b\<close> is skipped and the
  remaining blocks are tried on the same free intervals; otherwise, with \<open>it\<close> the first
  interval that is long enough (every interval of \<open>pre\<close> before it is too short), \<open>b\<close>
  is placed on \<open>[startMin it, startMin it + minutes b)\<close>, the interval \<open>it\<close> is replaced
  by \<open>[startMin it + minutes b + 15, endMin it)\<close> when that is non-empty and removed
  otherwise, the intervals before and after it stay as they are, and the remaining blocks
  are tried on the new list. Placements already made are never changed, and the events
  of \<^verbatim>\<open>scheduleBlocks\<close> are the renderings of the placements, in order.
\<close>

theorem placeBlocks_correct:
  "placeBlocks [] free acc = acc \<and>
   ((\<forall>x \<in> set free. endMin x - startMin x < minutes b) \<longrightarrow>
      placeBlocks (b # bs) free acc = placeBlocks bs free acc) \<and>
   ((\<forall>x \<in> set pre. endMin x - startMin x < minutes b) \<and> minutes b \<le> endMin it - startMin it \<longrightarrow>
      placeBlocks (b # bs) (pre @ it # post) acc =
      placeBlocks bs
        (pre @ (if startMin it + minutes b + 15 < endMin it
                then [\<lparr>startMin = startMin it + minutes b + 15, endMin = endMin it\<rparr>] else [])
             @ post)
        (acc @ [\<lparr>startMin = startMin it, endMin = startMin it + minutes b, blk = b\<rparr>])) \<and>
   placeBlocks bs free acc = acc @ placeBlocks bs free [] \<and>
   scheduleBlocks free ymd = map (eventOf ymd) (placeBlocks BLOCKS free [])"
proof -
  have 1: "placeBlocks [] free acc = acc" by simp
  have 2: "(\<forall>x \<in> set free. endMin x - startMin x < minutes b) \<longrightarrow>
      placeBlocks (b # bs) free acc = placeBlocks bs free acc"
    using placeBlocks_skip by blast
  have 3: "(\<forall>x \<in> set pre. endMin x - startMin x < minutes b) \<and> minutes b \<le> endMin it - startMin it \<longrightarrow>
      placeBlocks (b # bs) (pre @ it # post) acc =
      placeBlocks bs
        (pre @ (if startMin it + minutes b + 15 < endMin it
                then [\<lparr>startMin = startMin it + minutes b + 15, endMin = endMin it\<rparr>] else [])
             @ post)
        (acc @ [\<lparr>startMin = startMin it, endMin = startMin it + minutes b, blk = b\<rparr>])"
    using placeBlocks_place by blast
  have 4: "placeBlocks bs free acc = acc @ placeBlocks bs free []"
    by (rule placeBlocks_acc)
  have 5: "scheduleBlocks free ymd = map (eventOf ymd) (placeBlocks BLOCKS free [])"
    by (simp add: scheduleBlocks_def)
  from 1 2 3 4 5 show ?thesis by blast
qed


theorem placeBlocks_correct_witness:
  "placeBlocks [\<lparr>key = ''nibango'', title = ''Nibango (deep work)'', minutes = 90\<rparr>]
     [\<lparr>startMin = 510, endMin = 530\<rparr>] [] = [] \<and>
   placeBlocks [\<lparr>key = ''nibango'', title = ''Nibango (deep work)'', minutes = 90\<rparr>]
     [\<lparr>startMin = 510, endMin = 530\<rparr>, \<lparr>startMin = 600, endMin = 780\<rparr>] []
     = [\<lparr>startMin = 600, endMin = 690,
         blk = \<lparr>key = ''nibango'', title = ''Nibango (deep work)'', minutes = 90\<rparr>\<rparr>]"
  using placeBlocks_correct [where free = "[\<lparr>startMin = 510, endMin = 530\<rparr>]"
      and b = "\<lparr>key = ''nibango'', title = ''Nibango (deep work)'', minutes = 90\<rparr>"
      and bs = "[]" and acc = "[]" and pre = "[\<lparr>startMin = 510, endMin = 530\<rparr>]"
      and it = "\<lparr>startMin = 600, endMin = 780\<rparr>" and post = "[]"]
  by simp

section \<open>The placements of one day\<close>

lemma dayEvents_planDay:
  "dayEvents ymd gigsForDay =
     (case planDay gigsForDay of Inl e \<Rightarrow> Inl e | Inr ps \<Rightarrow> Inr (map (eventOf ymd) ps))"
  by (simp add: dayEvents_def planDay_def freeOfDay_def scheduleBlocks_def Let_def
      placeBlocks_no_free split: sum.split)

lemma firstFit_Some:
  "firstFit needed rf k = Some idx \<Longrightarrow>
   idx < length rf \<and> needed \<le> endMin (rf ! idx) - startMin (rf ! idx)"
proof (induction needed rf k rule: firstFit.induct)
  case (1 needed rf k)
  show ?case
  proof (cases "k < length rf")
    case False
    then show ?thesis using "1.prems" by (simp add: firstFit_end)
  next
    case True
    show ?thesis
    proof (cases "endMin (rf ! k) - startMin (rf ! k) < needed")
      case True
      have "firstFit needed rf (k + 1) = Some idx"
        using "1.prems" firstFit_skip[OF \<open>k < length rf\<close> True] by simp
      then show ?thesis
        using "1.IH"[OF \<open>k < length rf\<close> refl refl True] by simp
    next
      case False
      then show ?thesis
        using "1.prems" firstFit_hit[OF \<open>k < length rf\<close> False] \<open>k < length rf\<close> by auto
    qed
  qed
qed

lemma strictlySeparated_separated: "strictlySeparated xs \<Longrightarrow> separated xs"
  unfolding strictlySeparated_def separated_def
  by (elim conjE, intro conjI, assumption, erule sorted_wrt_mono_rel[rotated]) simp

lemma separated_filter: "separated xs \<Longrightarrow> separated (filter P xs)"
  unfolding separated_def by (simp add: sorted_wrt_filter)

lemma inside_trans: "inside p x \<Longrightarrow> inside x y \<Longrightarrow> inside p y"
  unfolding inside_def by simp

lemma not_overlaps_inside: "inside q x \<Longrightarrow> \<not> overlaps p x \<Longrightarrow> \<not> overlaps p q"
  unfolding inside_def overlaps_def by auto

lemma inside_refl: "inside x x"
  by (simp add: inside_def)

lemma placeBlocks_step_inv:
  assumes sep: "separated (pre @ it # post)" and n: "0 \<le> n" "n \<le> endMin it - startMin it"
    and new_def: "new = (if startMin it + n + BREAK_MIN < endMin it
                   then [\<lparr>startMin = startMin it + n + BREAK_MIN, endMin = endMin it\<rparr>] else [])"
    and p_def: "p = \<lparr>startMin = startMin it, endMin = startMin it + n, blk = b\<rparr>"
  shows "separated (pre @ new @ post)"
    and "\<forall>x \<in> set (pre @ new @ post). (\<exists>y \<in> set (pre @ it # post). inside x y) \<and> \<not> overlaps p x"
    and "inside p it"
proof -
  have pre: "separated pre" and post: "separated post" and it: "startMin it < endMin it"
    and pi: "\<forall>x \<in> set pre. endMin x \<le> startMin it"
    and ip: "\<forall>y \<in> set post. endMin it \<le> startMin y"
    and pp: "\<forall>x \<in> set pre. \<forall>y \<in> set post. endMin x \<le> startMin y"
    using sep unfolding separated_append separated_Cons by auto
  have snew: "separated new" by (simp add: new_def separated_single)
  have newin: "\<forall>x \<in> set new. inside x it \<and> endMin p \<le> startMin x"
    using n by (simp add: new_def inside_def p_def BREAK_MIN_def)
  have pn: "\<forall>x \<in> set pre. \<forall>y \<in> set new. endMin x \<le> startMin y"
    using pi n by (auto simp: new_def BREAK_MIN_def)
  have np: "\<forall>x \<in> set new. \<forall>y \<in> set post. endMin x \<le> startMin y"
    using ip by (auto simp: new_def)
  show "separated (pre @ new @ post)"
    unfolding separated_append using pre post snew pn np pp by auto
  show "inside p it" using n by (simp add: inside_def p_def)
  have a: "\<forall>x \<in> set pre. (\<exists>y \<in> set (pre @ it # post). inside x y) \<and> \<not> overlaps p x"
    using pi inside_refl by (fastforce simp: overlaps_def p_def)
  have b: "\<forall>x \<in> set new. (\<exists>y \<in> set (pre @ it # post). inside x y) \<and> \<not> overlaps p x"
    using newin by (fastforce simp: overlaps_def)
  have c: "\<forall>x \<in> set post. (\<exists>y \<in> set (pre @ it # post). inside x y) \<and> \<not> overlaps p x"
    using ip n inside_refl by (fastforce simp: overlaps_def p_def)
  show "\<forall>x \<in> set (pre @ new @ post). (\<exists>y \<in> set (pre @ it # post). inside x y) \<and> \<not> overlaps p x"
    using a b c by auto
qed


lemma placeBlocks_inv:
  "separated free \<Longrightarrow> \<forall>b \<in> set bs. 0 \<le> minutes b \<Longrightarrow>
   (\<forall>p \<in> set (placeBlocks bs free []). \<exists>y \<in> set free. inside p y) \<and>
   sorted_wrt (\<lambda>p q. \<not> overlaps p q) (placeBlocks bs free [])"
proof (induction bs arbitrary: free)
  case Nil
  show ?case by simp
next
  case (Cons b bs)
  have bs: "\<forall>b \<in> set bs. 0 \<le> minutes b" and b: "0 \<le> minutes b"
    using Cons.prems(2) by simp_all
  show ?case
  proof (cases "firstFit (minutes b) free 0")
    case None
    then show ?thesis using Cons.IH[OF Cons.prems(1) bs] by simp
  next
    case (Some idx)
    have idx: "idx < length free" and fit: "minutes b \<le> endMin (free ! idx) - startMin (free ! idx)"
      using firstFit_Some[OF Some] by blast+
    let ?it = "free ! idx"
    let ?pre = "take idx free"
    let ?post = "drop (Suc idx) free"
    let ?new = "(if startMin ?it + minutes b + BREAK_MIN < endMin ?it
        then [\<lparr>startMin = startMin ?it + minutes b + BREAK_MIN, endMin = endMin ?it\<rparr>] else [])"
    let ?p = "\<lparr>startMin = startMin ?it, endMin = startMin ?it + minutes b, blk = b\<rparr>"
    have dec: "free = ?pre @ ?it # ?post" using idx by (rule id_take_nth_drop)
    have sep: "separated (?pre @ ?it # ?post)" using Cons.prems(1) dec by simp
    note S = placeBlocks_step_inv[where b = b, OF sep b fit refl refl]
    have step: "placeBlocks (b # bs) free [] = ?p # placeBlocks bs (?pre @ ?new @ ?post) []"
      using Some placeBlocks_acc[of bs "?pre @ ?new @ ?post" "[?p]"] by (simp add: Let_def)
    note IH = Cons.IH[OF S(1) bs]
    have in1: "\<exists>y \<in> set free. inside ?p y"
      using S(3) idx by (metis nth_mem)
    have in2: "\<forall>q \<in> set (placeBlocks bs (?pre @ ?new @ ?post) []).
                 (\<exists>y \<in> set free. inside q y) \<and> \<not> overlaps ?p q"
    proof
      fix q assume "q \<in> set (placeBlocks bs (?pre @ ?new @ ?post) [])"
      then obtain x where x: "x \<in> set (?pre @ ?new @ ?post)" and qx: "inside q x"
        using IH by blast
      from S(2) x obtain y where y: "y \<in> set (?pre @ ?it # ?post)" and xy: "inside x y"
        and nx: "\<not> overlaps ?p x" by blast
      have "y \<in> set free" using y dec by simp
      moreover have "inside q y" using qx xy by (rule inside_trans)
      moreover have "\<not> overlaps ?p q" using qx nx by (rule not_overlaps_inside)
      ultimately show "(\<exists>y \<in> set free. inside q y) \<and> \<not> overlaps ?p q" by blast
    qed
    show ?thesis unfolding step using in1 in2 IH by simp
  qed
qed

lemma BLOCKS_minutes: "\<forall>b \<in> set BLOCKS. 0 \<le> minutes b"
  by (simp add: BLOCKS_def)

lemma freeOfDay_separated:
  assumes "strictlySeparated bm"
  shows "separated (freeOfDay bm)"
proof (cases "chooseMorningEnd bm 780 \<le> 510")
  case True
  then show ?thesis by (simp add: freeOfDay_closed)
next
  case False
  then have a: "separated [\<lparr>startMin = 510, endMin = chooseMorningEnd bm 780\<rparr>]"
    by (simp add: separated_single)
  have "separated (subtractIntervals [\<lparr>startMin = 510, endMin = chooseMorningEnd bm 780\<rparr>] bm)"
    using a strictlySeparated_separated[OF assms] by (rule subtractIntervals_separated)
  then show ?thesis
    using False
    by (simp add: freeOfDay_def hmToMinutes_BREAKFAST_END hmToMinutes_DEFAULT_END separated_filter)
qed

lemma freeOfDay_not_busy:
  assumes "strictlySeparated bm" "covers (freeOfDay bm) m"
  shows "\<not> covers bm m"
proof (cases "chooseMorningEnd bm 780 \<le> 510")
  case True
  then show ?thesis using assms(2) by (simp add: freeOfDay_closed)
next
  case False
  then have a: "separated [\<lparr>startMin = 510, endMin = chooseMorningEnd bm 780\<rparr>]"
    by (simp add: separated_single)
  have "covers (subtractIntervals [\<lparr>startMin = 510, endMin = chooseMorningEnd bm 780\<rparr>] bm) m"
    using assms(2) False
    by (simp add: freeOfDay_def hmToMinutes_BREAKFAST_END hmToMinutes_DEFAULT_END
        covers_filter_nonempty)
  then show ?thesis
    using subtractIntervals_covers[OF a strictlySeparated_separated[OF assms(1)]] by blast
qed

lemma overlaps_covers:
  assumes "overlaps p b" "inside p y" "y \<in> set free" "b \<in> set busy"
  shows "\<exists>m. covers free m \<and> covers busy m"
proof -
  let ?m = "max (startMin p) (startMin b)"
  have "startMin y \<le> ?m \<and> ?m < endMin y" "startMin b \<le> ?m \<and> ?m < endMin b"
    using assms(1,2) unfolding overlaps_def inside_def by auto
  then have "covers free ?m \<and> covers busy ?m"
    using assms(3,4) unfolding covers_def by blast
  then show ?thesis by blast
qed

lemma planDay_no_overlap:
  assumes "busyLoop gigsForDay [] = Inr busy"
  shows "\<exists>ps. planDay gigsForDay = Inr ps \<and>
           dayEvents ymd gigsForDay = Inr (map (eventOf ymd) ps) \<and>
           (\<forall>i j. i < j \<and> j < length ps \<longrightarrow> \<not> overlaps (ps ! i) (ps ! j)) \<and>
           (\<forall>p \<in> set ps. \<forall>b \<in> set (mergeIntervals busy). \<not> overlaps p b)"
proof -
  let ?bm = "mergeIntervals busy"
  let ?ps = "placeBlocks BLOCKS (freeOfDay ?bm) []"
  have sm: "strictlySeparated ?bm" by (rule mergeIntervals_separated)
  have 1: "planDay gigsForDay = Inr ?ps" using assms by (simp add: planDay_def)
  have 2: "dayEvents ymd gigsForDay = Inr (map (eventOf ymd) ?ps)"
    unfolding dayEvents_planDay 1 by simp
  note I = placeBlocks_inv[OF freeOfDay_separated[OF sm] BLOCKS_minutes]
  have 3: "\<forall>i j. i < j \<and> j < length ?ps \<longrightarrow> \<not> overlaps (?ps ! i) (?ps ! j)"
    using I by (simp add: sorted_wrt_iff_nth_less)
  have 4: "\<forall>p \<in> set ?ps. \<forall>b \<in> set ?bm. \<not> overlaps p b"
  proof (intro ballI notI)
    fix p b assume p: "p \<in> set ?ps" and b: "b \<in> set ?bm" and o: "overlaps p b"
    from I p obtain y where y: "y \<in> set (freeOfDay ?bm)" and py: "inside p y" by blast
    from overlaps_covers[OF o py y b] obtain m where "covers (freeOfDay ?bm) m" "covers ?bm m"
      by blast
    then show False using freeOfDay_not_busy[OF sm] by blast
  qed
  from 1 2 3 4 show ?thesis by blast
qed


section \<open>The days of a run\<close>

lemma groupByDate_lookup:
  "gigsFor (groupByDate gs byDate) ymd = gigsFor byDate ymd @ gigsOn gs ymd"
proof (induction gs arbitrary: byDate)
  case Nil
  show ?case by (simp add: gigsOn_def)
next
  case (Cons g gs)
  show ?case
  proof (cases "usable g")
    case False
    then show ?thesis using Cons.IH[of byDate] by (simp add: gigsOn_def)
  next
    case True
    then obtain d where d: "date g = Some d" by (auto simp: usable_def)
    let ?m = "byDate(d \<mapsto> gigsFor byDate d @ [g])"
    have step: "groupByDate (g # gs) byDate = groupByDate gs ?m"
      using True d by (simp add: gigsFor_def)
    have "gigsFor ?m ymd = gigsFor byDate ymd @ (if d = ymd then [g] else [])"
      by (simp add: gigsFor_def)
    then show ?thesis
      unfolding step Cons.IH[of ?m] using True d by (auto simp: gigsOn_def)
  qed
qed

lemma gigsFor_empty: "gigsFor Map.empty ymd = []"
  by (simp add: gigsFor_def)

lemma daysLoop_collect:
  "daysLoop today byDate is acc =
     (case collect (map (\<lambda>i. dayEvents (dayOf today i) (gigsFor byDate (dayOf today i)))
                     (filter (\<lambda>i. isWeekday (weekdayIndexUTC (dayOf today i))) is)) of
        Inl e \<Rightarrow> Inl e | Inr r \<Rightarrow> Inr (acc @ r))"
proof (induction "is" arbitrary: acc)
  case Nil
  show ?case by simp
next
  case (Cons i "is")
  show ?case
  proof (cases "isWeekday (weekdayIndexUTC (dayOf today i))")
    case False
    then show ?thesis using Cons.IH[of acc] by (simp add: dayOf_def)
  next
    case True
    show ?thesis
    proof (cases "dayEvents (dayOf today i) (gigsFor byDate (dayOf today i))")
      case (Inl e)
      then show ?thesis using True by (simp add: dayOf_def)
    next
      case (Inr evs)
      then show ?thesis using True Cons.IH[of "acc @ evs"]
        by (simp add: dayOf_def split: sum.split)
    qed
  qed
qed

lemma runEvents_collect:
  "runEvents data =
     collect (map (\<lambda>i. dayEvents (dayOf (server_date data) i)
                          (gigsOn (gigs data) (dayOf (server_date data) i)))
                (weekdayOffsets (server_date data)))"
  unfolding runEvents_def daysLoop_collect weekdayOffsets_def
  by (simp add: groupByDate_lookup gigsFor_empty split: sum.split)

lemma collect_all_Inr:
  "\<forall>r \<in> set rs. \<exists>evs. r = Inr evs \<Longrightarrow> \<exists>evs. collect rs = Inr evs"
proof (induction rs)
  case Nil
  show ?case by simp
next
  case (Cons r rs)
  then obtain evs where "r = Inr evs" by auto
  moreover obtain r' where "collect rs = Inr r'" using Cons by auto
  ultimately show ?case by simp
qed

lemma collect_some_Inl:
  "Inl e \<in> set rs \<Longrightarrow> \<exists>e'. collect rs = Inl e'"
proof (induction rs)
  case Nil
  then show ?case by simp
next
  case (Cons r rs)
  show ?case
  proof (cases r)
    case (Inl a)
    then show ?thesis by simp
  next
    case (Inr evs)
    then have "Inl e \<in> set rs" using Cons.prems by auto
    then obtain e' where "collect rs = Inl e'" using Cons.IH by blast
    then show ?thesis using Inr by simp
  qed
qed

lemma busyLoop_ok:
  "\<forall>g \<in> set gs. \<exists>t r. time g = Some t \<and> parseRange t = Inr r \<Longrightarrow>
   \<exists>busy. busyLoop gs acc = Inr busy"
proof (induction gs arbitrary: acc)
  case Nil
  show ?case by simp
next
  case (Cons g gs)
  then obtain t r where "time g = Some t" "parseRange t = Inr r" by auto
  then show ?case using Cons.IH Cons.prems by (simp add: Let_def)
qed

lemma busyLoop_fail:
  "g \<in> set gs \<Longrightarrow> time g = Some t \<Longrightarrow> parseRange t = Inl e \<Longrightarrow>
   \<exists>e'. busyLoop gs acc = Inl e'"
proof (induction gs arbitrary: acc)
  case Nil
  then show ?case by simp
next
  case (Cons x xs)
  show ?case
  proof (cases "x = g")
    case True
    then show ?thesis using Cons.prems by simp
  next
    case False
    then have g: "g \<in> set xs" using Cons.prems(1) by simp
    show ?thesis
    proof (cases "time x")
      case None
      then show ?thesis by simp
    next
      case (Some tx)
      show ?thesis
      proof (cases "parseRange tx")
        case (Inl a)
        then show ?thesis using Some by simp
      next
        case (Inr r)
        then show ?thesis using Some Cons.IH[OF g Cons.prems(2,3)] by (simp add: Let_def)
      qed
    qed
  qed
qed

lemma dayEvents_ok:
  "busyLoop gs [] = Inr busy \<Longrightarrow> \<exists>evs. dayEvents ymd gs = Inr evs"
  by (simp add: dayEvents_def Let_def)

lemma dayEvents_fail:
  "busyLoop gs [] = Inl e \<Longrightarrow> dayEvents ymd gs = Inl e"
  by (simp add: dayEvents_def)


lemma gigsOn_relevant:
  "i \<in> set (weekdayOffsets today) \<Longrightarrow>
   gigsOn (filter (relevant today) gs) (dayOf today i) = gigsOn gs (dayOf today i)"
  unfolding gigsOn_def relevant_def filter_filter
  by (rule filter_cong) auto

lemma runEvents_relevant:
  assumes "server_date d1 = server_date d2"
    and "filter (relevant (server_date d1)) (gigs d1) = filter (relevant (server_date d1)) (gigs d2)"
  shows "runEvents d1 = runEvents d2"
proof -
  let ?t = "server_date d1"
  have "\<And>i. i \<in> set (weekdayOffsets ?t) \<Longrightarrow>
          gigsOn (gigs d1) (dayOf ?t i) = gigsOn (gigs d2) (dayOf ?t i)"
    using gigsOn_relevant[of _ ?t "gigs d1"] gigsOn_relevant[of _ ?t "gigs d2"] assms(2) by simp
  then have m: "map (\<lambda>i. dayEvents (dayOf ?t i) (gigsOn (gigs d1) (dayOf ?t i))) (weekdayOffsets ?t)
           = map (\<lambda>i. dayEvents (dayOf ?t i) (gigsOn (gigs d2) (dayOf ?t i))) (weekdayOffsets ?t)"
    by (intro map_cong) simp_all
  show ?thesis unfolding runEvents_collect assms(1)[symmetric] m ..
qed

lemma runEvents_ok:
  assumes "\<forall>g \<in> set (gigs data). usable g \<and> relevant (server_date data) g \<longrightarrow>
             (\<exists>t r. time g = Some t \<and> parseRange t = Inr r)"
  shows "\<exists>evs. runEvents data = Inr evs"
proof -
  let ?t = "server_date data"
  have "\<forall>r \<in> set (map (\<lambda>i. dayEvents (dayOf ?t i) (gigsOn (gigs data) (dayOf ?t i)))
                    (weekdayOffsets ?t)). \<exists>evs. r = Inr evs"
  proof
    fix r assume "r \<in> set (map (\<lambda>i. dayEvents (dayOf ?t i) (gigsOn (gigs data) (dayOf ?t i)))
                    (weekdayOffsets ?t))"
    then obtain i where i: "i \<in> set (weekdayOffsets ?t)"
      and r: "r = dayEvents (dayOf ?t i) (gigsOn (gigs data) (dayOf ?t i))" by auto
    have "\<forall>g \<in> set (gigsOn (gigs data) (dayOf ?t i)). \<exists>t r. time g = Some t \<and> parseRange t = Inr r"
      using assms i unfolding gigsOn_def relevant_def by auto
    then obtain busy where "busyLoop (gigsOn (gigs data) (dayOf ?t i)) [] = Inr busy"
      using busyLoop_ok by blast
    then show "\<exists>evs. r = Inr evs" unfolding r by (rule dayEvents_ok)
  qed
  then show ?thesis unfolding runEvents_collect by (rule collect_all_Inr)
qed

lemma runEvents_fail:
  assumes "g \<in> set (gigs data)" "usable g" "relevant (server_date data) g"
    "time g = Some t" "parseRange t = Inl e"
  shows "\<exists>e'. runEvents data = Inl e'"
proof -
  let ?t = "server_date data"
  from assms(3) obtain i where i: "i \<in> set (weekdayOffsets ?t)" and d: "date g = Some (dayOf ?t i)"
    unfolding relevant_def by blast
  have "g \<in> set (gigsOn (gigs data) (dayOf ?t i))"
    using assms(1,2) d by (simp add: gigsOn_def)
  then obtain e' where "busyLoop (gigsOn (gigs data) (dayOf ?t i)) [] = Inl e'"
    using busyLoop_fail[OF _ assms(4,5)] by blast
  then have "dayEvents (dayOf ?t i) (gigsOn (gigs data) (dayOf ?t i)) = Inl e'"
    by (rule dayEvents_fail)
  then have "Inl e' \<in> set (map (\<lambda>i. dayEvents (dayOf ?t i) (gigsOn (gigs data) (dayOf ?t i)))
                    (weekdayOffsets ?t))"
    using i by (metis (no_types, lifting) image_eqI list.set_map)
  then show ?thesis unfolding runEvents_collect by (rule collect_some_Inl)
qed

text \<open>
  Claim C10. The result of a run depends on the commitments dated on a Monday to Friday
  among the 7 days from the anchor day only: two documents with the same anchor day whose
  commitments on those days agree give the same result, whatever their other commitments
  and the time strings of those are. When every commitment with a date and a time on
  those days parses, the run succeeds and writes its output.
\<close>

theorem parsing_only_relevant_days:
  "(server_date d1 = server_date d2 \<and>
    filter (relevant (server_date d1)) (gigs d1) = filter (relevant (server_date d1)) (gigs d2)
      \<longrightarrow> main d1 nowIso = main d2 nowIso) \<and>
   ((\<forall>g \<in> set (gigs data). usable g \<and> relevant (server_date data) g \<longrightarrow>
        (\<exists>t r. time g = Some t \<and> parseRange t = Inr r))
      \<longrightarrow> (\<exists>ics. main data nowIso = Inr ics))"
proof (intro conjI impI)
  assume "server_date d1 = server_date d2 \<and>
    filter (relevant (server_date d1)) (gigs d1) = filter (relevant (server_date d1)) (gigs d2)"
  then have "runEvents d1 = runEvents d2" using runEvents_relevant by blast
  then show "main d1 nowIso = main d2 nowIso" by (simp add: main_def)
next
  assume "\<forall>g \<in> set (gigs data). usable g \<and> relevant (server_date data) g \<longrightarrow>
        (\<exists>t r. time g = Some t \<and> parseRange t = Inr r)"
  then obtain evs where "runEvents data = Inr evs" using runEvents_ok by blast
  then show "\<exists>ics. main data nowIso = Inr ics" by (simp add: main_def)
qed

text \<open>
  Claim C8, amended. When a commitment with a non-empty date and time is dated on a
  Monday to Friday among the 7 days from the anchor day and its time range does not
  parse, the run fails as a whole: it ends with an error and no output text is produced.
\<close>

theorem malformed_range_aborts:
  assumes "g \<in> set (gigs data)" "usable g" "relevant (server_date data) g"
    "time g = Some t" "parseRange t = Inl e"
  shows "\<exists>e'. runEvents data = Inl e' \<and> main data nowIso = Inl e'"
proof -
  obtain e' where "runEvents data = Inl e'" using runEvents_fail[OF assms] by blast
  then show ?thesis by (simp add: main_def)
qed


lemmas string_defs = jsNumber_def trim_def isSpace_def isDigit_def decimal_def digitVal_def
  part_def pad2_def showNat.simps splitOn.simps

lemmas calendar_defs = addDaysYmd_def weekdayIndexUTC_def ymdToDateParts_def MakeDay_def
  TimeClip_def setUTCDate_def YearFromDay_def DayFromYear_def InLeapYear_def MonthFromDay_def
  DateFromDay_def DayWithinYear_def monthStart_def WeekDay_def isWeekday_def Let_def

lemmas parse_defs = parseRange_def parseTime12h_def matchTime12h_def toUpperCase_def
  toUpperChar_def

lemma upt_DAYS: "[0..<DAYS] = [0, 1, 2, 3, 4, 5, 6]"
  by (simp add: DAYS_def upt_rec)

lemma week_of_2026_02_23:
  "map (dayOf ''2026-02-23'') [0, 1, 2, 3, 4, 5, 6] =
     [''2026-02-23'', ''2026-02-24'', ''2026-02-25'', ''2026-02-26'', ''2026-02-27'',
      ''2026-02-28'', ''2026-03-01'']"
  by (simp add: dayOf_def string_defs calendar_defs)

lemma weekdays_of_2026_02_23:
  "map (\<lambda>d. isWeekday (weekdayIndexUTC d))
     [''2026-02-23'', ''2026-02-24'', ''2026-02-25'', ''2026-02-26'', ''2026-02-27'',
      ''2026-02-28'', ''2026-03-01''] = [True, True, True, True, True, False, False]"
  by (simp add: string_defs calendar_defs)

lemma weekdayOffsets_2026_02_23: "weekdayOffsets ''2026-02-23'' = [0, 1, 2, 3, 4]"
  using week_of_2026_02_23 weekdays_of_2026_02_23
  by (simp add: weekdayOffsets_def upt_DAYS)

lemma parse_soon: "parseRange ''soon'' = Inl (BadRange ''soon'')"
  by (simp add: parse_defs string_defs)

lemma parse_10_to_2:
  "parseRange ''10:00 AM - 02:00 PM'' = Inr \<lparr>start = \<lparr>hh = 10, mm = 0\<rparr>, endT = \<lparr>hh = 14, mm = 0\<rparr>\<rparr>"
  by (simp add: parse_defs string_defs)

theorem parsing_only_relevant_days_witness:
  "main \<lparr>server_date = ''2026-02-23'',
         gigs = [\<lparr>date = Some ''2026-02-28'', time = Some ''soon''\<rparr>,
                 \<lparr>date = Some ''2026-02-24'', time = Some ''10:00 AM - 02:00 PM''\<rparr>]\<rparr>
      ''2026-02-23T06:00:00.000Z''
   = main \<lparr>server_date = ''2026-02-23'',
           gigs = [\<lparr>date = Some ''2026-02-24'', time = Some ''10:00 AM - 02:00 PM''\<rparr>]\<rparr>
      ''2026-02-23T06:00:00.000Z'' \<and>
   (\<exists>ics. main \<lparr>server_date = ''2026-02-23'',
         gigs = [\<lparr>date = Some ''2026-02-28'', time = Some ''soon''\<rparr>,
                 \<lparr>date = Some ''2026-02-24'', time = Some ''10:00 AM - 02:00 PM''\<rparr>]\<rparr>
      ''2026-02-23T06:00:00.000Z'' = Inr ics)"
proof -
  have r1: "\<not> relevant ''2026-02-23'' \<lparr>date = Some ''2026-02-28'', time = Some ''soon''\<rparr>"
    using week_of_2026_02_23 by (simp add: relevant_def weekdayOffsets_2026_02_23)
  have r2: "relevant ''2026-02-23''
              \<lparr>date = Some ''2026-02-24'', time = Some ''10:00 AM - 02:00 PM''\<rparr>"
    using week_of_2026_02_23 by (simp add: relevant_def weekdayOffsets_2026_02_23)
  let ?d1 = "\<lparr>server_date = ''2026-02-23'',
         gigs = [\<lparr>date = Some ''2026-02-28'', time = Some ''soon''\<rparr>,
                 \<lparr>date = Some ''2026-02-24'', time = Some ''10:00 AM - 02:00 PM''\<rparr>]\<rparr>"
  let ?d2 = "\<lparr>server_date = ''2026-02-23'',
           gigs = [\<lparr>date = Some ''2026-02-24'', time = Some ''10:00 AM - 02:00 PM''\<rparr>]\<rparr>"
  have h1: "server_date ?d1 = server_date ?d2 \<and>
    filter (relevant (server_date ?d1)) (gigs ?d1) = filter (relevant (server_date ?d1)) (gigs ?d2)"
    using r1 r2 by simp
  have h2: "\<forall>g \<in> set (gigs ?d1). usable g \<and> relevant (server_date ?d1) g \<longrightarrow>
        (\<exists>t r. time g = Some t \<and> parseRange t = Inr r)"
    using r1 parse_10_to_2 by simp
  from parsing_only_relevant_days
      [where ?d1.0 = ?d1 and ?d2.0 = ?d2 and data = ?d1 and nowIso = "''2026-02-23T06:00:00.000Z''"]
    h1 h2
  show ?thesis by blast
qed

theorem malformed_range_aborts_witness:
  "\<exists>e'. runEvents \<lparr>server_date = ''2026-02-23'',
            gigs = [\<lparr>date = Some ''2026-02-24'', time = Some ''soon''\<rparr>]\<rparr> = Inl e' \<and>
     main \<lparr>server_date = ''2026-02-23'',
            gigs = [\<lparr>date = Some ''2026-02-24'', time = Some ''soon''\<rparr>]\<rparr>
        ''2026-02-23T06:00:00.000Z'' = Inl e'"
proof -
  have r: "relevant ''2026-02-23'' \<lparr>date = Some ''2026-02-24'', time = Some ''soon''\<rparr>"
    using week_of_2026_02_23 by (simp add: relevant_def weekdayOffsets_2026_02_23)
  have u: "usable \<lparr>date = Some ''2026-02-24'', time = Some ''soon''\<rparr>"
    by (simp add: usable_def)
  show ?thesis
    using malformed_range_aborts
      [where g = "\<lparr>date = Some ''2026-02-24'', time = Some ''soon''\<rparr>"
        and data = "\<lparr>server_date = ''2026-02-23'',
            gigs = [\<lparr>date = Some ''2026-02-24'', time = Some ''soon''\<rparr>]\<rparr>"
        and t = "''soon''" and e = "BadRange ''soon''"
        and nowIso = "''2026-02-23T06:00:00.000Z''"]
      r u parse_soon
    by simp
qed

text \<open>The claim C8 as first stated fails: a commitment dated on the Sunday of the run,
  whose time range does not parse, leaves the run successful.\<close>

theorem malformed_range_counterexample:
  "parseRange ''soon'' = Inl (BadRange ''soon'') \<and>
   (\<exists>ics. main \<lparr>server_date = ''2026-02-23'',
                  gigs = [\<lparr>date = Some ''2026-03-01'', time = Some ''soon''\<rparr>]\<rparr>
             ''2026-02-23T06:00:00.000Z'' = Inr ics)"
proof -
  have r: "\<not> relevant ''2026-02-23'' \<lparr>date = Some ''2026-03-01'', time = Some ''soon''\<rparr>"
    using week_of_2026_02_23 by (simp add: relevant_def weekdayOffsets_2026_02_23)
  have "\<exists>evs. runEvents \<lparr>server_date = ''2026-02-23'',
                  gigs = [\<lparr>date = Some ''2026-03-01'', time = Some ''soon''\<rparr>]\<rparr> = Inr evs"
    using r by (intro runEvents_ok) simp
  then show ?thesis using parse_soon by (auto simp: main_def)
qed

section \<open>A weekday without commitments\<close>

lemma freeOfDay_no_busy: "freeOfDay (mergeIntervals []) = [\<lparr>startMin = 510, endMin = 780\<rparr>]"
  by (simp add: freeOfDay_def mergeIntervals_def chooseMorningEnd_def subtractIntervals_def
      hmToMinutes_BREAKFAST_END hmToMinutes_DEFAULT_END)

lemma placeBlocks_head:
  "minutes b \<le> endMin it - startMin it \<Longrightarrow>
   placeBlocks (b # bs) (it # post) acc =
   placeBlocks bs
     ((if startMin it + minutes b + 15 < endMin it
       then [\<lparr>startMin = startMin it + minutes b + 15, endMin = endMin it\<rparr>] else []) @ post)
     (acc @ [\<lparr>startMin = startMin it, endMin = startMin it + minutes b, blk = b\<rparr>])"
  using placeBlocks_place [where pre = "[]"] by simp

lemma placeBlocks_open_morning:
  "placeBlocks BLOCKS [\<lparr>startMin = 510, endMin = 780\<rparr>] [] =
     [\<lparr>startMin = 510, endMin = 540, blk = BLOCKS ! 0\<rparr>,
      \<lparr>startMin = 555, endMin = 645, blk = BLOCKS ! 1\<rparr>,
      \<lparr>startMin = 660, endMin = 720, blk = BLOCKS ! 2\<rparr>]"
  by (simp add: BLOCKS_def placeBlocks_head del: placeBlocks.simps(2))

lemma planDay_no_gigs:
  "planDay [] =
     Inr [\<lparr>startMin = 510, endMin = 540, blk = BLOCKS ! 0\<rparr>,
          \<lparr>startMin = 555, endMin = 645, blk = BLOCKS ! 1\<rparr>,
          \<lparr>startMin = 660, endMin = 720, blk = BLOCKS ! 2\<rparr>]"
  by (simp add: planDay_def freeOfDay_no_busy placeBlocks_open_morning)

lemma open_morning_times:
  "map (\<lambda>p. (key (blk p), minutesToHm (startMin p), minutesToHm (endMin p)))
     [\<lparr>startMin = 510, endMin = 540, blk = BLOCKS ! 0\<rparr>,
      \<lparr>startMin = 555, endMin = 645, blk = BLOCKS ! 1\<rparr>,
      \<lparr>startMin = 660, endMin = 720, blk = BLOCKS ! 2\<rparr>]
   = [(''music'', ''08:30'', ''09:00''), (''nibango'', ''09:15'', ''10:45''),
      (''youtube'', ''11:00'', ''12:00'')]"
  by (simp add: BLOCKS_def minutesToHm_def string_defs)

lemma weekdayOffsets_anchor:
  "isWeekday (weekdayIndexUTC (dayOf today 0)) \<Longrightarrow>
   \<exists>rest. weekdayOffsets today = 0 # rest"
  by (simp add: weekdayOffsets_def upt_DAYS)

lemma collect_Cons_Inr:
  "collect (Inr e0 # rs) = Inr evs \<Longrightarrow> take (length e0) evs = e0"
  by (auto split: sum.splits)

text \<open>
  Claim C6. When the anchor day of a run is a Monday to Friday and no commitment is
  grouped under it, the free window of that day is \<open>[510, 780)\<close>, that is 08:30 to 13:00,
  and exactly three blocks are placed on it: music on 08:30 to 09:00, nibango on 09:15 to
  10:45 and youtube on 11:00 to 12:00. They are the events of that day, and the first
  three events of the run when it succeeds.
\<close>

theorem scenario_A:
  assumes "isWeekday (weekdayIndexUTC (dayOf (server_date data) 0))"
    and "gigsOn (gigs data) (dayOf (server_date data) 0) = []"
  shows "freeOfDay (mergeIntervals []) = [\<lparr>startMin = 510, endMin = 780\<rparr>] \<and>
    planDay (gigsOn (gigs data) (dayOf (server_date data) 0)) =
      Inr [\<lparr>startMin = 510, endMin = 540, blk = BLOCKS ! 0\<rparr>,
           \<lparr>startMin = 555, endMin = 645, blk = BLOCKS ! 1\<rparr>,
           \<lparr>startMin = 660, endMin = 720, blk = BLOCKS ! 2\<rparr>] \<and>
    map (\<lambda>p. (key (blk p), minutesToHm (startMin p), minutesToHm (endMin p)))
      [\<lparr>startMin = 510, endMin = 540, blk = BLOCKS ! 0\<rparr>,
       \<lparr>startMin = 555, endMin = 645, blk = BLOCKS ! 1\<rparr>,
       \<lparr>startMin = 660, endMin = 720, blk = BLOCKS ! 2\<rparr>]
      = [(''music'', ''08:30'', ''09:00''), (''nibango'', ''09:15'', ''10:45''),
         (''youtube'', ''11:00'', ''12:00'')] \<and>
    dayEvents (dayOf (server_date data) 0) (gigsOn (gigs data) (dayOf (server_date data) 0)) =
      Inr (map (eventOf (dayOf (server_date data) 0))
        [\<lparr>startMin = 510, endMin = 540, blk = BLOCKS ! 0\<rparr>,
         \<lparr>startMin = 555, endMin = 645, blk = BLOCKS ! 1\<rparr>,
         \<lparr>startMin = 660, endMin = 720, blk = BLOCKS ! 2\<rparr>]) \<and>
    (\<forall>evs. runEvents data = Inr evs \<longrightarrow>
       take 3 evs = map (eventOf (dayOf (server_date data) 0))
        [\<lparr>startMin = 510, endMin = 540, blk = BLOCKS ! 0\<rparr>,
         \<lparr>startMin = 555, endMin = 645, blk = BLOCKS ! 1\<rparr>,
         \<lparr>startMin = 660, endMin = 720, blk = BLOCKS ! 2\<rparr>])"
proof -
  let ?t = "server_date data"
  let ?ps = "[\<lparr>startMin = 510, endMin = 540, blk = BLOCKS ! 0\<rparr>,
         \<lparr>startMin = 555, endMin = 645, blk = BLOCKS ! 1\<rparr>,
         \<lparr>startMin = 660, endMin = 720, blk = BLOCKS ! 2\<rparr>]"
  have 2: "planDay (gigsOn (gigs data) (dayOf ?t 0)) = Inr ?ps"
    unfolding assms(2) by (rule planDay_no_gigs)
  have 4: "dayEvents (dayOf ?t 0) (gigsOn (gigs data) (dayOf ?t 0))
             = Inr (map (eventOf (dayOf ?t 0)) ?ps)"
    unfolding dayEvents_planDay 2 by simp
  have 5: "\<forall>evs. runEvents data = Inr evs \<longrightarrow> take 3 evs = map (eventOf (dayOf ?t 0)) ?ps"
  proof (intro allI impI)
    fix evs assume r: "runEvents data = Inr evs"
    obtain rest where w: "weekdayOffsets ?t = 0 # rest"
      using weekdayOffsets_anchor[OF assms(1)] by blast
    have "collect (Inr (map (eventOf (dayOf ?t 0)) ?ps) #
            map (\<lambda>i. dayEvents (dayOf ?t i) (gigsOn (gigs data) (dayOf ?t i))) rest) = Inr evs"
      using r unfolding runEvents_collect w by (simp add: 4)
    from collect_Cons_Inr[OF this] show "take 3 evs = map (eventOf (dayOf ?t 0)) ?ps"
      by (simp add: numeral_3_eq_3)
  qed
  from freeOfDay_no_busy 2 open_morning_times 4 5 show ?thesis by blast
qed

lemma anchor_2026_02_24:
  "dayOf ''2026-02-24'' 0 = ''2026-02-24'' \<and> isWeekday (weekdayIndexUTC ''2026-02-24'')"
  by (simp add: dayOf_def string_defs calendar_defs)

lemma events_2026_02_24:
  "map (eventOf ''2026-02-24'')
        [\<lparr>startMin = 510, endMin = 540, blk = BLOCKS ! 0\<rparr>,
         \<lparr>startMin = 555, endMin = 645, blk = BLOCKS ! 1\<rparr>,
         \<lparr>startMin = 660, endMin = 720, blk = BLOCKS ! 2\<rparr>]
   = [\<lparr>uid = ''tb-javi-music-2026-02-24-0830@javibeat'',
       summary = ''M'' @ [CHR 0xFA] @ ''sica (escuchar/descargar)'',
       dtstart = ''20260224T083000'', dtend = ''20260224T090000''\<rparr>,
      \<lparr>uid = ''tb-javi-nibango-2026-02-24-0915@javibeat'',
       summary = ''Nibango (deep work)'',
       dtstart = ''20260224T091500'', dtend = ''20260224T104500''\<rparr>,
      \<lparr>uid = ''tb-javi-youtube-2026-02-24-1100@javibeat'',
       summary = ''YouTube (v'' @ [CHR 0xED] @ ''deo viernes)'',
       dtstart = ''20260224T110000'', dtend = ''20260224T120000''\<rparr>]"
  by (simp add: eventOf_def BLOCKS_def minutesToHm_def uidForEvent_def DJ_def
      dtLocalFloating_def ymdToDateParts_def string_defs)

theorem scenario_A_witness:
  "dayEvents ''2026-02-24''
     (gigsOn [\<lparr>date = Some ''2026-02-25'', time = Some ''10:00 AM - 02:00 PM''\<rparr>] ''2026-02-24'')
   = Inr [\<lparr>uid = ''tb-javi-music-2026-02-24-0830@javibeat'',
       summary = ''M'' @ [CHR 0xFA] @ ''sica (escuchar/descargar)'',
       dtstart = ''20260224T083000'', dtend = ''20260224T090000''\<rparr>,
      \<lparr>uid = ''tb-javi-nibango-2026-02-24-0915@javibeat'',
       summary = ''Nibango (deep work)'',
       dtstart = ''20260224T091500'', dtend = ''20260224T104500''\<rparr>,
      \<lparr>uid = ''tb-javi-youtube-2026-02-24-1100@javibeat'',
       summary = ''YouTube (v'' @ [CHR 0xED] @ ''deo viernes)'',
       dtstart = ''20260224T110000'', dtend = ''20260224T120000''\<rparr>]"
proof -
  let ?data = "\<lparr>server_date = ''2026-02-24'',
     gigs = [\<lparr>date = Some ''2026-02-25'', time = Some ''10:00 AM - 02:00 PM''\<rparr>]\<rparr>"
  have a: "isWeekday (weekdayIndexUTC (dayOf (server_date ?data) 0))"
    using anchor_2026_02_24 by simp
  have b: "gigsOn (gigs ?data) (dayOf (server_date ?data) 0) = []"
    using anchor_2026_02_24 by (simp add: gigsOn_def)
  from scenario_A [OF a b] anchor_2026_02_24 events_2026_02_24 show ?thesis
    by simp
qed

section \<open>The 12-hour parser\<close>

lemma case3_Some:
  "(case xs of c # d1 # d2 # r \<Rightarrow> f c d1 d2 r | _ \<Rightarrow> None) = Some v \<Longrightarrow>
   \<exists>c d1 d2 r. xs = c # d1 # d2 # r \<and> f c d1 d2 r = Some v"
  by (simp split: list.splits)

lemma case2_Some:
  "(case xs of [a, b] \<Rightarrow> g a b | _ \<Rightarrow> None) = Some v \<Longrightarrow>
   \<exists>a b. xs = [a, b] \<and> g a b = Some v"
  by (simp split: list.splits)

lemma matchTime12h_shape:
  assumes "matchTime12h t = Some (m1, m2, m3)"
  shows "\<exists>ws. t = m1 @ '':'' @ m2 @ ws @ m3 \<and>
           (length m1 = 1 \<or> length m1 = 2) \<and> list_all isDigit m1 \<and>
           length m2 = 2 \<and> list_all isDigit m2 \<and> list_all isSpace ws \<and>
           length m3 = 2 \<and> (toUpperCase m3 = ''AM'' \<or> toUpperCase m3 = ''PM'')"
proof -
  let ?h = "takeWhile isDigit t"
  have len: "1 \<le> length ?h \<and> length ?h \<le> 2"
    using assms unfolding matchTime12h_def Let_def by (simp split: if_splits)
  then have A: "(case dropWhile isDigit t of
           c # d1 # d2 # r \<Rightarrow>
             if c = CHR '':'' \<and> isDigit d1 \<and> isDigit d2 then
               (case dropWhile isSpace r of
                  [a, b] \<Rightarrow>
                    if toUpperCase [a, b] = ''AM'' \<or> toUpperCase [a, b] = ''PM''
                    then Some (?h, [d1, d2], [a, b]) else None
                | _ \<Rightarrow> None)
             else None
         | _ \<Rightarrow> None) = Some (m1, m2, m3)"
    using assms unfolding matchTime12h_def Let_def by simp
  from case3_Some[OF A] obtain c d1 d2 r where
    rest: "dropWhile isDigit t = c # d1 # d2 # r"
    and B: "(if c = CHR '':'' \<and> isDigit d1 \<and> isDigit d2 then
               (case dropWhile isSpace r of
                  [a, b] \<Rightarrow>
                    if toUpperCase [a, b] = ''AM'' \<or> toUpperCase [a, b] = ''PM''
                    then Some (?h, [d1, d2], [a, b]) else None
                | _ \<Rightarrow> None)
             else None) = Some (m1, m2, m3)"
    by blast
  have c: "c = CHR '':''" "isDigit d1" "isDigit d2"
    using B by (simp_all split: if_splits)
  then have C: "(case dropWhile isSpace r of
                  [a, b] \<Rightarrow>
                    if toUpperCase [a, b] = ''AM'' \<or> toUpperCase [a, b] = ''PM''
                    then Some (?h, [d1, d2], [a, b]) else None
                | _ \<Rightarrow> None) = Some (m1, m2, m3)"
    using B by simp
  from case2_Some[OF C] obtain a b where
    tail: "dropWhile isSpace r = [a, b]"
    and D: "(if toUpperCase [a, b] = ''AM'' \<or> toUpperCase [a, b] = ''PM''
             then Some (?h, [d1, d2], [a, b]) else None) = Some (m1, m2, m3)"
    by blast
  have ap: "toUpperCase [a, b] = ''AM'' \<or> toUpperCase [a, b] = ''PM''"
    using D by (simp split: if_splits)
  have m: "m1 = ?h" "m2 = [d1, d2]" "m3 = [a, b]"
    using D ap by simp_all
  have "t = ?h @ dropWhile isDigit t" by simp
  also have "dropWhile isDigit t = '':'' @ [d1, d2] @ r" unfolding rest c by simp
  also have "r = takeWhile isSpace r @ dropWhile isSpace r" by simp
  finally have t: "t = m1 @ '':'' @ m2 @ takeWhile isSpace r @ m3"
    unfolding tail m by simp
  have d: "list_all isDigit m1" unfolding m list_all_iff using set_takeWhileD by fastforce
  have w: "list_all isSpace (takeWhile isSpace r)" unfolding list_all_iff using set_takeWhileD by fastforce
  have l: "length m1 = 1 \<or> length m1 = 2" using len unfolding m by linarith
  have m2: "length m2 = 2 \<and> list_all isDigit m2" unfolding m using c by simp
  have m3: "length m3 = 2 \<and> (toUpperCase m3 = ''AM'' \<or> toUpperCase m3 = ''PM'')"
    unfolding m using ap by simp
  from t d w l m2 m3 show ?thesis by blast
qed


lemma digitVal_le: "isDigit c \<Longrightarrow> digitVal c \<le> 9"
  unfolding isDigit_def digitVal_def by auto

lemma decimal_1: "decimal [a] = digitVal a"
  by (simp add: decimal_def)

lemma decimal_2: "decimal [a, b] = 10 * digitVal a + digitVal b"
  by (simp add: decimal_def)

lemma decimal_le_99:
  assumes "length h = 1 \<or> length h = 2" "list_all isDigit h"
  shows "decimal h \<le> 99"
proof -
  from assms(1) consider a where "h = [a]" | a b where "h = [a, b]"
    by (cases h; cases "tl h") auto
  then show ?thesis
  proof cases
    case 1
    then show ?thesis using assms(2) digitVal_le[of a] by (simp add: decimal_1)
  next
    case 2
    then show ?thesis using assms(2) digitVal_le[of a] digitVal_le[of b] by (simp add: decimal_2)
  qed
qed

lemma parseTime12h_Inr:
  assumes "parseTime12h s = Inr r"
  shows "\<exists>m1 m2 m3. matchTime12h (trim s) = Some (m1, m2, m3) \<and>
           hh r = (if toUpperCase m3 = ''AM''
                   then (if int (decimal m1) = 12 then 0 else int (decimal m1))
                   else (if int (decimal m1) \<noteq> 12 then int (decimal m1) + 12 else int (decimal m1))) \<and>
           mm r = int (decimal m2)"
proof (cases "matchTime12h (trim s)")
  case None
  then show ?thesis using assms by (simp add: parseTime12h_def)
next
  case (Some v)
  obtain m1 m2 m3 where v: "v = (m1, m2, m3)" by (cases v) auto
  have "r = \<lparr>hh = (if toUpperCase m3 = ''AM''
                   then (if int (decimal m1) = 12 then 0 else int (decimal m1))
                   else (if int (decimal m1) \<noteq> 12 then int (decimal m1) + 12 else int (decimal m1))),
             mm = int (decimal m2)\<rparr>"
    using assms Some v by (simp add: parseTime12h_def Let_def)
  then show ?thesis using Some v by simp
qed

lemma parse_noon: "parseTime12h ''12:00 PM'' = Inr \<lparr>hh = 12, mm = 0\<rparr>"
  by (simp add: parse_defs string_defs)

lemma parse_midnight: "parseTime12h ''12:00 AM'' = Inr \<lparr>hh = 0, mm = 0\<rparr>"
  by (simp add: parse_defs string_defs)

text \<open>
  Claim C9, amended. A string accepted by \<^verbatim>\<open>parseTime12h\<close> is, once trimmed, one or two
  digits, a colon, two digits, optional white space and exactly one of AM and PM in
  either case. The parser checks no range: its hour is between 0 and 111 and its minute
  between 0 and 99. When the hour digits read 1 to 12 and the minute digits 0 to 59, the
  minute offset \<open>hh * 60 + mm\<close> lies in \<open>[0, 1440)\<close>. Noon, 12:00 PM, is hour 12 (720
  minutes) and midnight, 12:00 AM, is hour 0 (0 minutes).
\<close>

theorem parseTime12h_accepts:
  assumes "parseTime12h s = Inr r"
  shows "(\<exists>h m ws ap. trim s = h @ '':'' @ m @ ws @ ap \<and>
            (length h = 1 \<or> length h = 2) \<and> list_all isDigit h \<and>
            length m = 2 \<and> list_all isDigit m \<and> list_all isSpace ws \<and>
            length ap = 2 \<and> (toUpperCase ap = ''AM'' \<or> toUpperCase ap = ''PM'') \<and>
            hh r = (if toUpperCase ap = ''AM''
                    then (if decimal h = 12 then 0 else int (decimal h))
                    else (if decimal h \<noteq> 12 then int (decimal h) + 12 else 12)) \<and>
            mm r = int (decimal m) \<and>
            (1 \<le> decimal h \<and> decimal h \<le> 12 \<and> decimal m \<le> 59 \<longrightarrow>
               0 \<le> hh r * 60 + mm r \<and> hh r * 60 + mm r < 1440)) \<and>
         0 \<le> hh r \<and> hh r \<le> 111 \<and> 0 \<le> mm r \<and> mm r \<le> 99 \<and>
         parseTime12h ''12:00 PM'' = Inr \<lparr>hh = 12, mm = 0\<rparr> \<and>
         parseTime12h ''12:00 AM'' = Inr \<lparr>hh = 0, mm = 0\<rparr>"
proof -
  from parseTime12h_Inr[OF assms] obtain m1 m2 m3 where
    mt: "matchTime12h (trim s) = Some (m1, m2, m3)"
    and hh: "hh r = (if toUpperCase m3 = ''AM''
                   then (if int (decimal m1) = 12 then 0 else int (decimal m1))
                   else (if int (decimal m1) \<noteq> 12 then int (decimal m1) + 12 else int (decimal m1)))"
    and mm: "mm r = int (decimal m2)" by blast
  from matchTime12h_shape[OF mt] obtain ws where
    t: "trim s = m1 @ '':'' @ m2 @ ws @ m3"
    and l1: "length m1 = 1 \<or> length m1 = 2" and d1: "list_all isDigit m1"
    and l2: "length m2 = 2" and d2: "list_all isDigit m2" and w: "list_all isSpace ws"
    and l3: "length m3 = 2" and ap: "toUpperCase m3 = ''AM'' \<or> toUpperCase m3 = ''PM''"
    by blast
  have b1: "decimal m1 \<le> 99" using l1 d1 by (rule decimal_le_99)
  have b2: "decimal m2 \<le> 99" using l2 d2 by (intro decimal_le_99) simp_all
  have hh': "hh r = (if toUpperCase m3 = ''AM''
                    then (if decimal m1 = 12 then 0 else int (decimal m1))
                    else (if decimal m1 \<noteq> 12 then int (decimal m1) + 12 else 12))"
    unfolding hh by simp
  have rng: "1 \<le> decimal m1 \<and> decimal m1 \<le> 12 \<and> decimal m2 \<le> 59 \<longrightarrow>
               0 \<le> hh r * 60 + mm r \<and> hh r * 60 + mm r < 1440"
    unfolding hh' mm by auto
  have bnd: "0 \<le> hh r \<and> hh r \<le> 111 \<and> 0 \<le> mm r \<and> mm r \<le> 99"
    unfolding hh' mm using b1 b2 by auto
  from t l1 d1 l2 d2 w l3 ap hh' mm rng bnd parse_noon parse_midnight show ?thesis by blast
qed

theorem parseTime12h_accepts_witness:
  "parseTime12h '' 2:45 pm'' = Inr \<lparr>hh = 14, mm = 45\<rparr> \<and>
   (\<exists>h m ws ap. trim '' 2:45 pm'' = h @ '':'' @ m @ ws @ ap \<and>
      (length h = 1 \<or> length h = 2) \<and> list_all isDigit h \<and>
      length m = 2 \<and> list_all isDigit m \<and> list_all isSpace ws \<and>
      length ap = 2 \<and> (toUpperCase ap = ''AM'' \<or> toUpperCase ap = ''PM'') \<and>
      decimal h \<le> 12 \<and> decimal m \<le> 59)"
proof -
  have p: "parseTime12h '' 2:45 pm'' = Inr \<lparr>hh = 14, mm = 45\<rparr>"
    by (simp add: parse_defs string_defs)
  have e: "trim '' 2:45 pm'' = ''2'' @ '':'' @ ''45'' @ '' '' @ ''pm''"
    by (simp add: string_defs)
  have f: "list_all isDigit ''2'' \<and> list_all isDigit ''45'' \<and> list_all isSpace '' '' \<and>
      toUpperCase ''pm'' = ''PM'' \<and> decimal ''2'' \<le> 12 \<and> decimal ''45'' \<le> 59"
    by (simp add: parse_defs string_defs)
  from parseTime12h_accepts [OF p] p e f show ?thesis
    by (intro conjI exI[of _ "''2''"] exI[of _ "''45''"] exI[of _ "'' ''"] exI[of _ "''pm''"])
      simp_all
qed

text \<open>The claim C9 as first stated fails: 13:75 PM is accepted, with hour 25, minute 75
  and a minute offset of 1575.\<close>

theorem parseTime12h_range_counterexample:
  "\<exists>r. parseTime12h ''13:75 PM'' = Inr r \<and> hh r = 25 \<and> mm r = 75 \<and>
       1440 \<le> hh r * 60 + mm r"
  by (simp add: parse_defs string_defs)

section \<open>The output text\<close>

lemma eventLines_rel:
  "list_all2 (\<lambda>a b. a = b \<or> (a = ''DTSTAMP:'' @ d1 \<and> b = ''DTSTAMP:'' @ d2))
     (eventLines d1 ev) (eventLines d2 ev)"
  by (simp add: eventLines_def)

lemma concat_eventLines_rel:
  "list_all2 (\<lambda>a b. a = b \<or> (a = ''DTSTAMP:'' @ d1 \<and> b = ''DTSTAMP:'' @ d2))
     (concat (map (eventLines d1) evs)) (concat (map (eventLines d2) evs))"
proof (induction evs)
  case Nil
  show ?case by simp
next
  case (Cons ev evs)
  show ?case using eventLines_rel[of d1 d2 ev] Cons.IH by (simp add: list_all2_appendI)
qed

lemma list_all2_same: "list_all2 (\<lambda>a b. a = b \<or> Q a b) xs xs"
  by (simp add: list_all2_same)

lemma icsLines_rel:
  "list_all2 (\<lambda>a b. a = b \<or> (a = ''DTSTAMP:'' @ dtstampOf n1 \<and> b = ''DTSTAMP:'' @ dtstampOf n2))
     (icsLines evs n1) (icsLines evs n2)"
  unfolding icsLines_def
  by (intro list_all2_appendI list_all2_same concat_eventLines_rel)

lemma icsLines_same: "dtstampOf n1 = dtstampOf n2 \<Longrightarrow> icsLines evs n1 = icsLines evs n2"
  by (simp add: icsLines_def)

text \<open>
  Claim C7, amended. For a fixed input document, whether the run fails, and with which
  error, does not depend on the clock. When it succeeds, the output texts of two runs have
  the same number of lines and are equal line by line, except that the \<^verbatim>\<open>DTSTAMP\<close>
  line of each event carries the generation timestamp of its own run: the event
  identifiers, every other field and the order of the fields are the same. Two runs
  whose timestamps are equal produce the same text, byte for byte.
\<close>

theorem output_equal_but_for_dtstamp:
  "(main data n1 = Inl e) = (runEvents data = Inl e) \<and>
   (runEvents data = Inr evs \<longrightarrow>
      main data n1 = Inr (joinLines (icsLines evs n1) @ CRLF) \<and>
      main data n2 = Inr (joinLines (icsLines evs n2) @ CRLF) \<and>
      length (icsLines evs n1) = length (icsLines evs n2) \<and>
      (\<forall>k < length (icsLines evs n1).
           icsLines evs n1 ! k = icsLines evs n2 ! k \<or>
           (icsLines evs n1 ! k = ''DTSTAMP:'' @ dtstampOf n1 \<and>
            icsLines evs n2 ! k = ''DTSTAMP:'' @ dtstampOf n2))) \<and>
   (dtstampOf n1 = dtstampOf n2 \<longrightarrow> main data n1 = main data n2)"
proof -
  have 1: "(main data n1 = Inl e) = (runEvents data = Inl e)"
    by (simp add: main_def split: sum.split)
  have 2: "runEvents data = Inr evs \<longrightarrow>
      main data n1 = Inr (joinLines (icsLines evs n1) @ CRLF) \<and>
      main data n2 = Inr (joinLines (icsLines evs n2) @ CRLF)"
    by (simp add: main_def buildIcs_def)
  have 3: "length (icsLines evs n1) = length (icsLines evs n2) \<and>
      (\<forall>k < length (icsLines evs n1).
           icsLines evs n1 ! k = icsLines evs n2 ! k \<or>
           (icsLines evs n1 ! k = ''DTSTAMP:'' @ dtstampOf n1 \<and>
            icsLines evs n2 ! k = ''DTSTAMP:'' @ dtstampOf n2))"
    using icsLines_rel[of n1 n2 evs] unfolding list_all2_conv_all_nth by blast
  have 4: "dtstampOf n1 = dtstampOf n2 \<longrightarrow> main data n1 = main data n2"
  proof
    assume "dtstampOf n1 = dtstampOf n2"
    then have "\<And>evs. buildIcs evs n1 = buildIcs evs n2"
      unfolding buildIcs_def by (simp only: icsLines_same[of n1 n2])
    then show "main data n1 = main data n2" by (simp add: main_def split: sum.split)
  qed
  from 1 2 3 4 show ?thesis by blast
qed

lemma buildIcs_Cons_split:
  "\<exists>P. \<forall>n. \<exists>S. buildIcs (ev # evs) n = P @ dtstampOf n @ S"
proof (intro exI allI)
  fix n
  show "buildIcs (ev # evs) n =
      (''BEGIN:VCALENDAR'' @ CRLF @ ''VERSION:2.0'' @ CRLF @
       ''PRODID:-//JaviBeat//Timeblocking//EN'' @ CRLF @ ''CALSCALE:GREGORIAN'' @ CRLF @
       ''METHOD:PUBLISH'' @ CRLF @ ''X-WR-CALNAME:Timeblocking'' @ CRLF @
       ''X-WR-TIMEZONE:'' @ TZID @ CRLF @ ''BEGIN:VEVENT'' @ CRLF @ ''UID:'' @ uid ev @ CRLF @
       ''DTSTAMP:'') @ dtstampOf n @
      (CRLF @ joinLines ([''SUMMARY:'' @ summary ev,
          ''DTSTART;TZID='' @ TZID @ '':'' @ dtstart ev,
          ''DTEND;TZID='' @ TZID @ '':'' @ dtend ev,
          ''STATUS:CONFIRMED'', ''TRANSP:OPAQUE'', ''END:VEVENT'']
          @ concat (map (eventLines (dtstampOf n)) evs) @ [''END:VCALENDAR'']) @ CRLF)"
    by (simp add: buildIcs_def icsLines_def eventLines_def)
qed

lemma buildIcs_differs:
  assumes "length (dtstampOf n1) = length (dtstampOf n2)" "dtstampOf n1 \<noteq> dtstampOf n2"
  shows "buildIcs (ev # evs) n1 \<noteq> buildIcs (ev # evs) n2"
proof
  assume eq: "buildIcs (ev # evs) n1 = buildIcs (ev # evs) n2"
  obtain P where P: "\<forall>n. \<exists>S. buildIcs (ev # evs) n = P @ dtstampOf n @ S"
    using buildIcs_Cons_split by blast
  obtain S1 where 1: "buildIcs (ev # evs) n1 = P @ dtstampOf n1 @ S1" using P by blast
  obtain S2 where 2: "buildIcs (ev # evs) n2 = P @ dtstampOf n2 @ S2" using P by blast
  have "dtstampOf n1 @ S1 = dtstampOf n2 @ S2" using eq unfolding 1 2 by simp
  then have "dtstampOf n1 = dtstampOf n2" using assms(1) by simp
  then show False using assms(2) by simp
qed

lemma dtstamps_differ:
  "dtstampOf ''2026-02-24T06:00:00.000Z'' = ''20260224T060000Z'' \<and>
   dtstampOf ''2026-02-24T06:00:01.000Z'' = ''20260224T060001Z''"
  by (simp add: dtstampOf_def dropMillis_def isDigit_def)

text \<open>The claim C7 as first stated fails: two runs on the same document, one second
  apart, write different texts.\<close>

theorem byte_identical_counterexample:
  "main \<lparr>server_date = ''2026-02-24'', gigs = []\<rparr> ''2026-02-24T06:00:00.000Z''
   \<noteq> main \<lparr>server_date = ''2026-02-24'', gigs = []\<rparr> ''2026-02-24T06:00:01.000Z''"
proof -
  let ?data = "\<lparr>server_date = ''2026-02-24'', gigs = []\<rparr>"
  obtain evs where r: "runEvents ?data = Inr evs"
    using runEvents_ok[of ?data] by auto
  obtain rest where w: "weekdayOffsets ''2026-02-24'' = 0 # rest"
    using weekdayOffsets_anchor[of "''2026-02-24''"] anchor_2026_02_24 by auto
  have d: "dayEvents (dayOf ''2026-02-24'' 0) (gigsOn [] (dayOf ''2026-02-24'' 0))
           = Inr (map (eventOf (dayOf ''2026-02-24'' 0))
        [\<lparr>startMin = 510, endMin = 540, blk = BLOCKS ! 0\<rparr>,
         \<lparr>startMin = 555, endMin = 645, blk = BLOCKS ! 1\<rparr>,
         \<lparr>startMin = 660, endMin = 720, blk = BLOCKS ! 2\<rparr>])"
    unfolding dayEvents_planDay by (simp add: gigsOn_def planDay_no_gigs)
  have "\<exists>ev evs'. evs = ev # evs'"
    using r unfolding runEvents_collect by (auto simp add: w d split: sum.splits)
  then obtain ev evs' where e: "evs = ev # evs'" by blast
  have "buildIcs (ev # evs') ''2026-02-24T06:00:00.000Z''
        \<noteq> buildIcs (ev # evs') ''2026-02-24T06:00:01.000Z''"
    using dtstamps_differ by (intro buildIcs_differs) simp_all
  then show ?thesis using r e by (simp add: main_def)
qed


lemma dtstamps_same_second:
  "dtstampOf ''2026-02-24T06:00:00.000Z'' = dtstampOf ''2026-02-24T06:00:00.999Z''"
  by (simp add: dtstampOf_def dropMillis_def isDigit_def)

theorem output_equal_but_for_dtstamp_witness:
  "\<exists>evs. runEvents \<lparr>server_date = ''2026-02-24'', gigs = []\<rparr> = Inr evs \<and>
     main \<lparr>server_date = ''2026-02-24'', gigs = []\<rparr> ''2026-02-24T06:00:00.000Z''
       = Inr (joinLines (icsLines evs ''2026-02-24T06:00:00.000Z'') @ CRLF) \<and>
     length (icsLines evs ''2026-02-24T06:00:00.000Z'')
       = length (icsLines evs ''2026-02-24T06:00:00.999Z'') \<and>
     main \<lparr>server_date = ''2026-02-24'', gigs = []\<rparr> ''2026-02-24T06:00:00.000Z''
       = main \<lparr>server_date = ''2026-02-24'', gigs = []\<rparr> ''2026-02-24T06:00:00.999Z''"
proof -
  obtain evs where r: "runEvents \<lparr>server_date = ''2026-02-24'', gigs = []\<rparr> = Inr evs"
    using runEvents_ok[of "\<lparr>server_date = ''2026-02-24'', gigs = []\<rparr>"] by auto
  from output_equal_but_for_dtstamp
      [where data = "\<lparr>server_date = ''2026-02-24'', gigs = []\<rparr>" and evs = evs
        and ?n1.0 = "''2026-02-24T06:00:00.000Z''" and ?n2.0 = "''2026-02-24T06:00:00.999Z''"]
    r dtstamps_same_second
  show ?thesis by blast
qed

section \<open>The calendar\<close>

lemma div_bounds:
  fixes x k :: int
  assumes "0 < k"
  shows "k * (x div k) \<le> x \<and> x < k * (x div k) + k"
proof -
  have "x = k * (x div k) + x mod k" by simp
  moreover have "0 \<le> x mod k" "x mod k < k" using assms by simp_all
  ultimately show ?thesis by linarith
qed

lemma DayFromYear_bounds:
  "146097 * y - 287811697 < 400 * DayFromYear y \<and> 400 * DayFromYear y < 146097 * y - 287810497"
proof -
  define a where "a = (y - 1969) div 4"
  define b where "b = (y - 1901) div 100"
  define c where "c = (y - 1601) div 400"
  have A: "4 * a \<le> y - 1969 \<and> y - 1969 < 4 * a + 4"
    unfolding a_def by (rule div_bounds) simp
  have B: "100 * b \<le> y - 1901 \<and> y - 1901 < 100 * b + 100"
    unfolding b_def by (rule div_bounds) simp
  have C: "400 * c \<le> y - 1601 \<and> y - 1601 < 400 * c + 400"
    unfolding c_def by (rule div_bounds) simp
  have D: "400 * DayFromYear y = 146000 * y - 287620000 + 400 * a - 400 * b + 400 * c"
    unfolding DayFromYear_def a_def b_def c_def by simp
  show ?thesis unfolding D using A B C by (elim conjE, intro conjI) linarith+
qed

lemma YearFromDay_correct:
  "DayFromYear (YearFromDay t) \<le> t \<and> t < DayFromYear (YearFromDay t + 1)"
proof -
  define q where "q = (400 * t) div 146097"
  have 1: "146097 * q \<le> 400 * t \<and> 400 * t < 146097 * q + 146097"
    unfolding q_def by (rule div_bounds) simp
  define lo where "lo = DayFromYear (1970 + q - 1)"
  define hi where "hi = DayFromYear (1970 + q + 1 + 1)"
  have L: "400 * lo < 146097 * q - 145504"
    unfolding lo_def using DayFromYear_bounds[of "1970 + q - 1"] by (simp add: algebra_simps)
  have H: "146097 * q + 291587 < 400 * hi"
    unfolding hi_def using DayFromYear_bounds[of "1970 + q + 1 + 1"] by (simp add: algebra_simps)
  have lo: "lo \<le> t" using L 1 by (elim conjE) linarith
  have hi: "t < hi" using H 1 by (elim conjE) linarith
  show ?thesis
    unfolding YearFromDay_def Let_def q_def[symmetric]
    using lo hi unfolding lo_def hi_def
    by auto
qed


lemma div_succ:
  fixes x k :: int
  assumes "0 < k"
  shows "(x + 1) div k = x div k + (if k dvd (x + 1) then 1 else 0)"
proof -
  define q where "q = x div k"
  define r where "r = x mod k"
  have x: "x = k * q + r" unfolding q_def r_def by simp
  have r: "0 \<le> r" "r < k" unfolding r_def using assms by simp_all
  show ?thesis
  proof (cases "r + 1 = k")
    case True
    have e: "x + 1 = k * (q + 1)" using x True by (simp add: algebra_simps)
    then have "k dvd (x + 1)" by simp
    moreover have "(x + 1) div k = q + 1" unfolding e using assms by simp
    ultimately show ?thesis unfolding q_def by simp
  next
    case False
    have e: "x + 1 = k * q + (r + 1)" using x by simp
    have d: "(x + 1) div k = q"
      by (rule int_div_pos_eq[OF e]) (use r False in simp_all)
    have m: "(x + 1) mod k = r + 1"
      by (rule int_mod_pos_eq[OF e]) (use r False in simp_all)
    have "\<not> k dvd (x + 1)" using m r by (simp add: dvd_eq_mod_eq_0)
    then show ?thesis using d unfolding q_def by simp
  qed
qed

lemma dvd_shift:
  fixes y k c :: int
  assumes "k dvd c"
  shows "k dvd (y - c) \<longleftrightarrow> k dvd y"
  using assms by (metis dvd_diff dvd_add diff_add_cancel)

lemma div_step:
  fixes y k c :: int
  assumes "0 < k" "k dvd (c - 1)"
  shows "(y + 1 - c) div k = (y - c) div k + (if k dvd y then 1 else 0)"
proof -
  have 1: "y + 1 - c = (y - c) + 1" by simp
  have 2: "(y - c) + 1 = y - (c - 1)" by simp
  have "k dvd ((y - c) + 1) \<longleftrightarrow> k dvd (y - (c - 1))"
    unfolding 2 ..
  also have "\<dots> \<longleftrightarrow> k dvd y" using assms(2) by (rule dvd_shift)
  finally show ?thesis unfolding 1 div_succ[OF assms(1)] by simp
qed

lemma year_length:
  "DayFromYear (y + 1) - DayFromYear y = 365 + (if InLeapYear y then 1 else 0)"
proof -
  have a: "(y + 1 - 1969) div 4 = (y - 1969) div 4 + (if 4 dvd y then 1 else 0)"
    by (rule div_step) simp_all
  have b: "(y + 1 - 1901) div 100 = (y - 1901) div 100 + (if 100 dvd y then 1 else 0)"
    by (rule div_step) simp_all
  have c: "(y + 1 - 1601) div 400 = (y - 1601) div 400 + (if 400 dvd y then 1 else 0)"
    by (rule div_step) simp_all
  have d1: "400 dvd y \<Longrightarrow> 100 dvd y" by (rule dvd_trans[of 100 400]) simp_all
  have d2: "100 dvd y \<Longrightarrow> 4 dvd y" by (rule dvd_trans[of 4 100]) simp_all
  have L: "InLeapYear y = (4 dvd y \<and> (\<not> 100 dvd y \<or> 400 dvd y))"
    unfolding InLeapYear_def by (simp add: dvd_eq_mod_eq_0)
  have "DayFromYear (y + 1) =
        365 * (y + 1 - 1970) + (y + 1 - 1969) div 4 - (y + 1 - 1901) div 100
          + (y + 1 - 1601) div 400"
    unfolding DayFromYear_def ..
  also have "\<dots> = DayFromYear y + 365 + (if 4 dvd y then 1 else 0)
          - (if 100 dvd y then 1 else 0) + (if 400 dvd y then 1 else 0)"
    unfolding a b c DayFromYear_def by simp
  finally have E: "DayFromYear (y + 1) - DayFromYear y = 365 + (if 4 dvd y then 1 else 0)
          - (if 100 dvd y then 1 else 0) + (if 400 dvd y then 1 else 0)" by simp
  show ?thesis
  proof (cases "4 dvd y")
    case False
    then have "\<not> 100 dvd y" "\<not> 400 dvd y" using d1 d2 by blast+
    then show ?thesis unfolding E L using False by simp
  next
    case True
    note t4 = True
    show ?thesis
    proof (cases "100 dvd y")
      case False
      then have "\<not> 400 dvd y" using d1 by blast
      then show ?thesis unfolding E L using False t4 by simp
    next
      case True
      then show ?thesis unfolding E L using t4 by simp
    qed
  qed
qed


lemma DayWithinYear_bounds:
  "0 \<le> DayWithinYear t \<and>
   DayWithinYear t < 365 + (if InLeapYear (YearFromDay t) then 1 else 0)"
  unfolding DayWithinYear_def
  using YearFromDay_correct[of t] year_length[of "YearFromDay t"] by linarith

lemma MonthFromDay_range: "0 \<le> MonthFromDay t \<and> MonthFromDay t \<le> 11"
  unfolding MonthFromDay_def Let_def by simp

lemma DateFromDay_range: "1 \<le> DateFromDay t \<and> DateFromDay t \<le> 31"
  using DayWithinYear_bounds[of t]
  unfolding DateFromDay_def MonthFromDay_def monthStart_def Let_def
  by (simp split: if_splits)

lemma day_from_parts:
  "t = DayFromYear (YearFromDay t) + monthStart (InLeapYear (YearFromDay t)) (MonthFromDay t)
       + DateFromDay t - 1"
  unfolding DateFromDay_def DayWithinYear_def by simp

lemma MakeDay_same_month:
  "MakeDay (YearFromDay t) (MonthFromDay t) d = t - DateFromDay t + d"
proof -
  have "MonthFromDay t div 12 = 0" "MonthFromDay t mod 12 = MonthFromDay t"
    using MonthFromDay_range[of t] by simp_all
  then show ?thesis
    unfolding MakeDay_def Let_def using day_from_parts[of t] by simp
qed

lemma setUTCDate_add: "setUTCDate t (DateFromDay t + i) = TimeClip (t + i)"
  unfolding setUTCDate_def MakeDay_same_month by simp


lemma digit_nth:
  assumes "n < 10"
  shows "digitVal (''0123456789'' ! n) = n \<and> isDigit (''0123456789'' ! n)"
proof -
  have "\<forall>k \<in> set [0..<10]. digitVal (''0123456789'' ! k) = k \<and> isDigit (''0123456789'' ! k)"
    by (simp add: upt_rec digitVal_def isDigit_def)
  moreover have "n \<in> set [0..<10]" using assms by simp
  ultimately show ?thesis by blast
qed

lemma decimal_snoc: "decimal (xs @ [c]) = 10 * decimal xs + digitVal c"
  by (simp add: decimal_def)

lemma decimal_showNat: "decimal (showNat n) = n"
proof (induction n rule: showNat.induct)
  case (1 n)
  show ?case
  proof (cases "n < 10")
    case True
    then show ?thesis using digit_nth[of n] by (subst showNat.simps) (simp add: decimal_def)
  next
    case False
    have m: "n mod 10 < 10" by simp
    have "decimal (showNat n) = 10 * decimal (showNat (n div 10)) + digitVal (''0123456789'' ! (n mod 10))"
      using False by (subst showNat.simps) (simp add: decimal_snoc)
    then show ?thesis using "1.IH"[OF False] digit_nth[OF m] by simp
  qed
qed

lemma digits_showNat: "list_all isDigit (showNat n) \<and> showNat n \<noteq> []"
proof (induction n rule: showNat.induct)
  case (1 n)
  show ?case
  proof (cases "n < 10")
    case True
    then show ?thesis using digit_nth[of n] by (subst (1 2) showNat.simps) simp
  next
    case False
    have m: "n mod 10 < 10" by simp
    show ?thesis using False "1.IH"[OF False] digit_nth[OF m]
      by (subst (1 2) showNat.simps) simp
  qed
qed

lemma length_showNat_small: "n < 100 \<Longrightarrow> length (showNat n) = (if n < 10 then 1 else 2)"
proof -
  assume n: "n < 100"
  show ?thesis
  proof (cases "n < 10")
    case True
    then show ?thesis by (subst showNat.simps) simp
  next
    case False
    then have "n div 10 < 10" using n by simp
    then have "length (showNat (n div 10)) = 1" by (subst showNat.simps) simp
    then show ?thesis using False by (subst showNat.simps) simp
  qed
qed

lemma minus_not_digit: "\<not> isDigit CHR ''-''"
  by (simp add: isDigit_def)

lemma jsString_Num_inj:
  assumes "jsString (Num a) = jsString (Num b)"
  shows "a = b"
proof -
  have hd: "\<And>n. showNat n \<noteq> [] \<and> hd (showNat n) \<noteq> CHR ''-''"
  proof -
    fix n
    have "list_all isDigit (showNat n)" "showNat n \<noteq> []" using digits_showNat by blast+
    then have "isDigit (hd (showNat n))" by (cases "showNat n") simp_all
    then show "showNat n \<noteq> [] \<and> hd (showNat n) \<noteq> CHR ''-''"
      using minus_not_digit \<open>showNat n \<noteq> []\<close> by metis
  qed
  show ?thesis
  proof (cases "a < 0")
    case True
    note an = True
    show ?thesis
    proof (cases "b < 0")
      case True
      then have "showNat (nat (- a)) = showNat (nat (- b))" using assms an by simp
      then have "nat (- a) = nat (- b)" using decimal_showNat by metis
      then show ?thesis using an True by simp
    next
      case False
      then have "CHR ''-'' # showNat (nat (- a)) = showNat (nat b)" using assms an by simp
      then have "hd (showNat (nat b)) = CHR ''-''" by (metis list.sel(1))
      then show ?thesis using hd by blast
    qed
  next
    case False
    note ap = False
    show ?thesis
    proof (cases "b < 0")
      case True
      then have "showNat (nat a) = CHR ''-'' # showNat (nat (- b))" using assms ap by simp
      then have "hd (showNat (nat a)) = CHR ''-''" by (metis list.sel(1))
      then show ?thesis using hd by blast
    next
      case False
      then have "showNat (nat a) = showNat (nat b)" using assms ap by simp
      then have "nat a = nat b" using decimal_showNat by metis
      then show ?thesis using ap False by simp
    qed
  qed
qed

lemma decimal_zeros: "decimal (replicate k CHR ''0'' @ s) = decimal s"
proof -
  have "foldl (\<lambda>acc c. 10 * acc + digitVal c) 0 (replicate k CHR ''0'') = 0"
    by (induction k) (simp_all add: digitVal_def)
  then show ?thesis by (simp add: decimal_def)
qed

lemma pad2_small:
  assumes "0 \<le> n" "n < 100"
  shows "length (pad2 (Num n)) = 2 \<and> decimal (pad2 (Num n)) = nat n"
proof -
  have s: "jsString (Num n) = showNat (nat n)" using assms by simp
  have l: "length (showNat (nat n)) = (if nat n < 10 then 1 else 2)"
    using assms by (intro length_showNat_small) simp
  show ?thesis
    unfolding pad2_def Let_def s using l by (simp add: decimal_zeros decimal_showNat)
qed

lemma pad2_inj:
  assumes "0 \<le> a" "a < 100" "0 \<le> b" "b < 100" "pad2 (Num a) = pad2 (Num b)"
  shows "a = b"
proof -
  have "nat a = nat b" using pad2_small[OF assms(1,2)] pad2_small[OF assms(3,4)] assms(5) by simp
  then show ?thesis using assms(1,3) by simp
qed


lemma ymdOfDay_inj:
  assumes "ymdOfDay a = ymdOfDay b"
  shows "a = b"
proof -
  let ?A = "\<lambda>t. jsString (Num (YearFromDay t))"
  let ?B = "\<lambda>t. pad2 (Num (MonthFromDay t + 1))"
  let ?C = "\<lambda>t. pad2 (Num (DateFromDay t))"
  have lB: "length (?B t) = 2" for t
    using MonthFromDay_range[of t] pad2_small[of "MonthFromDay t + 1"] by simp
  have lC: "length (?C t) = 2" for t
    using DateFromDay_range[of t] pad2_small[of "DateFromDay t"] by simp
  have e: "?A a @ (''-'' @ ?B a @ ''-'' @ ?C a) = ?A b @ (''-'' @ ?B b @ ''-'' @ ?C b)"
    using assms unfolding ymdOfDay_def by simp
  have "length (''-'' @ ?B a @ ''-'' @ ?C a) = length (''-'' @ ?B b @ ''-'' @ ?C b)"
    using lB lC by simp
  with e have A: "?A a = ?A b" and r: "?B a @ (''-'' @ ?C a) = ?B b @ (''-'' @ ?C b)"
    by simp_all
  from r have B: "?B a = ?B b" and C: "?C a = ?C b" using lB by simp_all
  have y: "YearFromDay a = YearFromDay b" using A by (rule jsString_Num_inj)
  have m: "MonthFromDay a + 1 = MonthFromDay b + 1"
    using B MonthFromDay_range[of a] MonthFromDay_range[of b] by (intro pad2_inj) simp_all
  have d: "DateFromDay a = DateFromDay b"
    using C DateFromDay_range[of a] DateFromDay_range[of b] by (intro pad2_inj) simp_all
  show ?thesis using day_from_parts[of a] day_from_parts[of b] y m d by simp
qed

lemma TimeClip_Some: "TimeClip t = Some t' \<Longrightarrow> t' = t"
  by (simp add: TimeClip_def split: if_splits)

lemma addDaysYmd_dayNumber:
  "addDaysYmd ymd i =
     (case dayNumber ymd of
        None \<Rightarrow> ''NaN-NaN-NaN''
      | Some dt \<Rightarrow> (case TimeClip (dt + i) of
                     None \<Rightarrow> ''NaN-NaN-NaN'' | Some dt' \<Rightarrow> ymdOfDay dt'))"
  unfolding addDaysYmd_def dayNumber_def ymdOfDay_def setUTCDate_add
  by (simp split: prod.split option.split)

lemma weekdayIndexUTC_dayNumber:
  "weekdayIndexUTC ymd = (case dayNumber ymd of None \<Rightarrow> NaN | Some dt \<Rightarrow> Num (WeekDay dt))"
  unfolding weekdayIndexUTC_def dayNumber_def by (simp split: prod.split)

lemma dayNumber_NaN: "dayNumber ''NaN-NaN-NaN'' = None"
  by (simp add: dayNumber_def ymdToDateParts_def jsNumber_def trim_def isSpace_def isDigit_def
      part_def)

lemma weekday_valid:
  assumes "isWeekday (weekdayIndexUTC (addDaysYmd ymd i))"
  shows "\<exists>dt. dayNumber ymd = Some dt \<and> addDaysYmd ymd i = ymdOfDay (dt + i)"
proof -
  have n: "addDaysYmd ymd i \<noteq> ''NaN-NaN-NaN''"
    using assms by (auto simp: weekdayIndexUTC_dayNumber dayNumber_NaN isWeekday_def)
  then obtain dt where dt: "dayNumber ymd = Some dt"
    unfolding addDaysYmd_dayNumber by (cases "dayNumber ymd") auto
  then obtain dt' where c: "TimeClip (dt + i) = Some dt'"
    using n unfolding addDaysYmd_dayNumber by (cases "TimeClip (dt + i)") auto
  then have "dt' = dt + i" by (rule TimeClip_Some)
  then show ?thesis using dt c unfolding addDaysYmd_dayNumber by simp
qed

lemma dayOf_inj:
  assumes "i \<in> set (weekdayOffsets today)" "j \<in> set (weekdayOffsets today)"
    "dayOf today i = dayOf today j"
  shows "i = j"
proof -
  have wi: "isWeekday (weekdayIndexUTC (addDaysYmd today (int i)))"
    and wj: "isWeekday (weekdayIndexUTC (addDaysYmd today (int j)))"
    using assms(1,2) unfolding weekdayOffsets_def dayOf_def by simp_all
  from weekday_valid[OF wi] weekday_valid[OF wj] obtain dt where
    "addDaysYmd today (int i) = ymdOfDay (dt + int i)"
    "addDaysYmd today (int j) = ymdOfDay (dt + int j)" by auto
  then have "ymdOfDay (dt + int i) = ymdOfDay (dt + int j)"
    using assms(3) unfolding dayOf_def by simp
  then have "dt + int i = dt + int j" by (rule ymdOfDay_inj)
  then show ?thesis by simp
qed

lemma distinct_days: "distinct (map (dayOf today) (weekdayOffsets today))"
proof -
  have "distinct (weekdayOffsets today)" unfolding weekdayOffsets_def by simp
  moreover have "inj_on (dayOf today) (set (weekdayOffsets today))"
    using dayOf_inj by (intro inj_onI) blast
  ultimately show ?thesis by (simp add: distinct_map)
qed

section \<open>No double booking in a run\<close>

lemma collect_Inr_concat:
  "collect rs = Inr evs \<Longrightarrow>
   evs = concat (map (\<lambda>r. case r of Inl e \<Rightarrow> [] | Inr e \<Rightarrow> e) rs) \<and>
   (\<forall>r \<in> set rs. \<exists>e. r = Inr e)"
proof (induction rs arbitrary: evs)
  case Nil
  then show ?case by simp
next
  case (Cons r rs)
  show ?case
  proof (cases r)
    case (Inl e)
    then show ?thesis using Cons.prems by simp
  next
    case (Inr e0)
    then obtain r' where r': "collect rs = Inr r'" and evs: "evs = e0 @ r'"
      using Cons.prems by (auto split: sum.splits)
    show ?thesis using Cons.IH[OF r'] Inr evs by simp
  qed
qed

lemma planDay_Inr:
  "planDay gs = Inr ps \<Longrightarrow> \<exists>busy. busyLoop gs [] = Inr busy"
  by (auto simp: planDay_def split: sum.splits)

lemma runEvents_scheduledBlocks:
  assumes "runEvents data = Inr evs"
  shows "evs = map (\<lambda>(ymd, p). eventOf ymd p) (scheduledBlocks data)"
proof -
  let ?t = "server_date data"
  let ?g = "\<lambda>i. gigsOn (gigs data) (dayOf ?t i)"
  have c: "collect (map (\<lambda>i. dayEvents (dayOf ?t i) (?g i)) (weekdayOffsets ?t)) = Inr evs"
    using assms unfolding runEvents_collect .
  have e: "evs = concat (map (\<lambda>r. case r of Inl e \<Rightarrow> [] | Inr e \<Rightarrow> e)
                    (map (\<lambda>i. dayEvents (dayOf ?t i) (?g i)) (weekdayOffsets ?t)))"
    using collect_Inr_concat[OF c] by blast
  have "\<And>i. (case dayEvents (dayOf ?t i) (?g i) of Inl e \<Rightarrow> [] | Inr e \<Rightarrow> e)
       = map (\<lambda>(ymd, p). eventOf ymd p)
           (case planDay (?g i) of Inl e \<Rightarrow> [] | Inr ps \<Rightarrow> map (Pair (dayOf ?t i)) ps)"
    unfolding dayEvents_planDay by (simp split: sum.split add: comp_def)
  then show ?thesis
    unfolding e scheduledBlocks_def map_concat by (simp add: comp_def)
qed

lemma day_blocks_apart:
  fixes d :: string
  shows "sorted_wrt (\<lambda>a b. fst a = fst b \<longrightarrow> \<not> overlaps (snd a) (snd b))
     (case planDay gs of Inl e \<Rightarrow> [] | Inr ps \<Rightarrow> map (Pair d) ps)"
proof (cases "planDay gs")
  case (Inl e)
  then show ?thesis by simp
next
  case (Inr ps)
  then obtain busy where b: "busyLoop gs [] = Inr busy" using planDay_Inr by blast
  from planDay_no_overlap[OF b, where ymd = d] Inr
  have "\<forall>i j. i < j \<and> j < length ps \<longrightarrow> \<not> overlaps (ps ! i) (ps ! j)" by auto
  then have "sorted_wrt (\<lambda>p q. \<not> overlaps p q) ps"
    by (simp add: sorted_wrt_iff_nth_less)
  then show ?thesis using Inr by (simp add: sorted_wrt_map)
qed

lemma day_blocks_label:
  "x \<in> set (case planDay gs of Inl e \<Rightarrow> [] | Inr ps \<Rightarrow> map (Pair d) ps) \<Longrightarrow> fst x = d"
  by (auto split: sum.splits)

lemma blocks_apart:
  fixes f :: "nat \<Rightarrow> string"
  shows "distinct (map f is) \<Longrightarrow>
   sorted_wrt (\<lambda>a b. fst a = fst b \<longrightarrow> \<not> overlaps (snd a) (snd b))
     (concat (map (\<lambda>i. case planDay (g i) of Inl e \<Rightarrow> [] | Inr ps \<Rightarrow> map (Pair (f i)) ps) is))"
proof (induction "is")
  case Nil
  show ?case by simp
next
  case (Cons i "is")
  let ?day = "\<lambda>i. case planDay (g i) of Inl e \<Rightarrow> [] | Inr ps \<Rightarrow> map (Pair (f i)) ps"
  have d: "distinct (map f is)" and ni: "f i \<notin> f ` set is" using Cons.prems by simp_all
  have cross: "\<forall>x \<in> set (?day i). \<forall>y \<in> set (concat (map ?day is)). fst x \<noteq> fst y"
  proof (intro ballI)
    fix x y assume x: "x \<in> set (?day i)" and y: "y \<in> set (concat (map ?day is))"
    from y obtain j where j: "j \<in> set is" and yj: "y \<in> set (?day j)" by auto
    have "fst x = f i" using x by (rule day_blocks_label)
    moreover have "fst y = f j" using yj by (rule day_blocks_label)
    ultimately show "fst x \<noteq> fst y" using ni j by auto
  qed
  have "sorted_wrt (\<lambda>a b. fst a = fst b \<longrightarrow> \<not> overlaps (snd a) (snd b))
          (?day i @ concat (map ?day is))"
    unfolding sorted_wrt_append
    using day_blocks_apart[where gs = "g i" and d = "f i"] Cons.IH[OF d] cross by blast
  then show ?case by simp
qed

lemma blocks_not_busy:
  assumes "(ymd, p) \<in> set (scheduledBlocks data)" "b \<in> set (busyOfDay data ymd)"
  shows "\<not> overlaps p b"
proof -
  let ?t = "server_date data"
  from assms(1) obtain i where
    x: "(ymd, p) \<in> set (case planDay (gigsOn (gigs data) (dayOf ?t i)) of
                         Inl e \<Rightarrow> [] | Inr ps \<Rightarrow> map (Pair (dayOf ?t i)) ps)"
    unfolding scheduledBlocks_def by auto
  have ymd: "ymd = dayOf ?t i" using day_blocks_label[OF x] by simp
  obtain ps where ps: "planDay (gigsOn (gigs data) ymd) = Inr ps" and p: "p \<in> set ps"
  proof (cases "planDay (gigsOn (gigs data) ymd)")
    case (Inl e)
    then show ?thesis using x unfolding ymd by simp
  next
    case (Inr ps)
    then have "p \<in> set ps" using x unfolding ymd by auto
    then show ?thesis using Inr that by blast
  qed
  obtain busy where bz: "busyLoop (gigsOn (gigs data) ymd) [] = Inr busy"
    using planDay_Inr[OF ps] by blast
  have "b \<in> set (mergeIntervals busy)" using assms(2) bz by (simp add: busyOfDay_def)
  then show ?thesis using planDay_no_overlap[OF bz, where ymd = ymd] ps p by auto
qed

text \<open>
  Claim C1. The events of a run are the renderings of its scheduled blocks, each a
  placement \<open>[startMin, endMin)\<close> on a day of the run. No two scheduled blocks of the same
  day overlap, and no scheduled block overlaps a busy interval of its day: a merged
  interval of the day's commitments, each widened by 60 minutes on both sides.
\<close>

theorem no_double_booking:
  "(runEvents data = Inr evs \<longrightarrow>
      evs = map (\<lambda>(ymd, p). eventOf ymd p) (scheduledBlocks data)) \<and>
   (\<forall>k l. k < l \<and> l < length (scheduledBlocks data) \<and>
           fst (scheduledBlocks data ! k) = fst (scheduledBlocks data ! l) \<longrightarrow>
           \<not> overlaps (snd (scheduledBlocks data ! k)) (snd (scheduledBlocks data ! l))) \<and>
   (\<forall>(ymd, p) \<in> set (scheduledBlocks data). \<forall>b \<in> set (busyOfDay data ymd). \<not> overlaps p b)"
proof -
  have 1: "runEvents data = Inr evs \<longrightarrow>
      evs = map (\<lambda>(ymd, p). eventOf ymd p) (scheduledBlocks data)"
    using runEvents_scheduledBlocks by blast
  have "sorted_wrt (\<lambda>a b. fst a = fst b \<longrightarrow> \<not> overlaps (snd a) (snd b)) (scheduledBlocks data)"
    unfolding scheduledBlocks_def by (rule blocks_apart[OF distinct_days])
  then have 2: "\<forall>k l. k < l \<and> l < length (scheduledBlocks data) \<and>
           fst (scheduledBlocks data ! k) = fst (scheduledBlocks data ! l) \<longrightarrow>
           \<not> overlaps (snd (scheduledBlocks data ! k)) (snd (scheduledBlocks data ! l))"
    by (simp add: sorted_wrt_iff_nth_less)
  have 3: "\<forall>(ymd, p) \<in> set (scheduledBlocks data). \<forall>b \<in> set (busyOfDay data ymd). \<not> overlaps p b"
    using blocks_not_busy by blast
  from 1 2 3 show ?thesis by blast
qed


lemma scheduledBlocks_anchor:
  assumes "isWeekday (weekdayIndexUTC (dayOf (server_date data) 0))"
    and "planDay (gigsOn (gigs data) (dayOf (server_date data) 0)) = Inr ps"
  shows "\<exists>rest. scheduledBlocks data = map (Pair (dayOf (server_date data) 0)) ps @ rest"
proof -
  obtain r where "weekdayOffsets (server_date data) = 0 # r"
    using weekdayOffsets_anchor[OF assms(1)] by blast
  then show ?thesis unfolding scheduledBlocks_def using assms(2) by simp
qed

theorem no_double_booking_witness:
  "scheduledBlocks \<lparr>server_date = ''2026-02-24'',
      gigs = [\<lparr>date = Some ''2026-02-24'', time = Some ''12:00 PM - 01:00 PM''\<rparr>]\<rparr> ! 0
     = (''2026-02-24'', \<lparr>startMin = 510, endMin = 540, blk = BLOCKS ! 0\<rparr>) \<and>
   scheduledBlocks \<lparr>server_date = ''2026-02-24'',
      gigs = [\<lparr>date = Some ''2026-02-24'', time = Some ''12:00 PM - 01:00 PM''\<rparr>]\<rparr> ! 1
     = (''2026-02-24'', \<lparr>startMin = 555, endMin = 645, blk = BLOCKS ! 1\<rparr>) \<and>
   busyOfDay \<lparr>server_date = ''2026-02-24'',
      gigs = [\<lparr>date = Some ''2026-02-24'', time = Some ''12:00 PM - 01:00 PM''\<rparr>]\<rparr>
      ''2026-02-24'' = [\<lparr>startMin = 660, endMin = 840\<rparr>] \<and>
   \<not> overlaps \<lparr>startMin = 510, endMin = 540, blk = BLOCKS ! 0\<rparr>
       \<lparr>startMin = 555, endMin = 645, blk = BLOCKS ! 1\<rparr> \<and>
   \<not> overlaps \<lparr>startMin = 555, endMin = 645, blk = BLOCKS ! 1\<rparr>
       \<lparr>startMin = 660, endMin = 840\<rparr>"
proof -
  let ?g = "\<lparr>date = Some ''2026-02-24'', time = Some ''12:00 PM - 01:00 PM''\<rparr>"
  let ?data = "\<lparr>server_date = ''2026-02-24'', gigs = [?g]\<rparr>"
  let ?m = "\<lparr>startMin = 510, endMin = 540, blk = BLOCKS ! 0\<rparr>"
  let ?n = "\<lparr>startMin = 555, endMin = 645, blk = BLOCKS ! 1\<rparr>"
  have d: "dayOf ''2026-02-24'' 0 = ''2026-02-24''" and w: "isWeekday (weekdayIndexUTC ''2026-02-24'')"
    using anchor_2026_02_24 by simp_all
  have g: "gigsOn [?g] ''2026-02-24'' = [?g]" by (simp add: gigsOn_def usable_def)
  have l: "busyLoop [?g] [] = Inr [\<lparr>startMin = 660, endMin = 840\<rparr>]"
    by (simp add: parse_defs string_defs clamp_def)
  have mi: "mergeIntervals [\<lparr>startMin = 660, endMin = 840\<rparr>] = [\<lparr>startMin = 660, endMin = 840\<rparr>]"
    by (simp add: mergeIntervals_def)
  have f: "freeOfDay [\<lparr>startMin = 660, endMin = 840\<rparr>] = [\<lparr>startMin = 510, endMin = 660\<rparr>]"
    by (simp add: freeOfDay_def chooseMorningEnd_find clamp_def subtractIntervals_def
        hmToMinutes_BREAKFAST_END hmToMinutes_DEFAULT_END)
  have pb: "placeBlocks BLOCKS [\<lparr>startMin = 510, endMin = 660\<rparr>] [] = [?m, ?n]"
    by (simp add: BLOCKS_def placeBlocks_head placeBlocks_no_free del: placeBlocks.simps(2))
  have p: "planDay [?g] = Inr [?m, ?n]"
    unfolding planDay_def l by (simp add: mi f pb)
  obtain rest where sb: "scheduledBlocks ?data = map (Pair ''2026-02-24'') [?m, ?n] @ rest"
    using scheduledBlocks_anchor[of ?data "[?m, ?n]"] d w g p by auto
  have b: "busyOfDay ?data ''2026-02-24'' = [\<lparr>startMin = 660, endMin = 840\<rparr>]"
    unfolding busyOfDay_def by (simp add: g l mi del: busyLoop.simps)
  have s0: "scheduledBlocks ?data ! 0 = (''2026-02-24'', ?m)"
    and s1: "scheduledBlocks ?data ! 1 = (''2026-02-24'', ?n)"
    and len: "1 < length (scheduledBlocks ?data)"
    and mem: "(''2026-02-24'', ?n) \<in> set (scheduledBlocks ?data)"
    unfolding sb by simp_all
  from no_double_booking [where data = ?data and evs = "[]"]
  have A: "\<forall>k l. k < l \<and> l < length (scheduledBlocks ?data) \<and>
           fst (scheduledBlocks ?data ! k) = fst (scheduledBlocks ?data ! l) \<longrightarrow>
           \<not> overlaps (snd (scheduledBlocks ?data ! k)) (snd (scheduledBlocks ?data ! l))"
    and B: "\<forall>(ymd, p) \<in> set (scheduledBlocks ?data). \<forall>b \<in> set (busyOfDay ?data ymd).
           \<not> overlaps p b"
    by blast+
  have o1: "\<not> overlaps ?m ?n"
    using A[rule_format, of 0 1] len s0 s1 by simp
  have o2: "\<not> overlaps ?n \<lparr>startMin = 660, endMin = 840\<rparr>"
    using B mem b by fastforce
  from s0 s1 b o1 o2 show ?thesis by blast
qed

end
